theory Spec2Isabelle
  imports Main
begin

section \<open>Events and filters\<close>

text \<open>
  The value types of \<^verbatim>\<open>packages/util/src/Repository.ts\<close>. An event is the
  \<^verbatim>\<open>TrustedEvent\<close> of the source; its field \<^verbatim>\<open>id\<close> is called \<open>event_id\<close> here
  (\<open>id\<close> is the identity function of HOL). The source reads only \<^verbatim>\<open>event.wrap.id\<close> of a
  wrapper, so \<open>wrap\<close> holds the wrapper's id when there is a wrapper. Numbers are
  integers (\<open>created_at\<close> is in seconds).
\<close>

record event =
  event_id :: string
  pubkey :: string
  created_at :: int
  kind :: int
  tags :: "string list list"
  content :: string
  wrap :: "string option"

text \<open>
  A filter object. A field that is absent is \<open>None\<close>. The fields whose key starts with
  \<^verbatim>\<open>#\<close> are kept with their whole key, in the order \<^verbatim>\<open>Object.entries\<close> lists them.
\<close>

record filter =
  ids :: "string list option"
  authors :: "string list option"
  kinds :: "int list option"
  since :: "int option"
  until :: "int option"
  limit :: "int option"
  tagFields :: "(string \<times> string list) list"

text \<open>
  What \<^verbatim>\<open>Repository.ts\<close> imports from \<^verbatim>\<open>./Events\<close>, \<^verbatim>\<open>./Kinds\<close>, \<^verbatim>\<open>./Filters\<close> and
  \<^verbatim>\<open>@welshman/lib\<close> and the specification gives no value for. They are parameters of
  the model: the trust check, the test for replaceable events, the deletion kind, the
  constant \<^verbatim>\<open>EPOCH\<close> and the value the clock \<^verbatim>\<open>now()\<close> returns.
\<close>

record env =
  isTrustedEvent :: "event \<Rightarrow> bool"
  isReplaceable :: "event \<Rightarrow> bool"
  DELETE :: int
  EPOCH :: int
  now :: int

definition DAY :: int where
  "DAY = 86400"

definition getDay :: "int \<Rightarrow> int" where
  "getDay ts = ts div DAY"

subsection \<open>Helpers of the library\<close>

text \<open>
  Modelled from the spec: \<^verbatim>\<open>uniq\<close> of \<^verbatim>\<open>@welshman/lib\<close>, which removes the duplicates
  of a union of buckets and of the merged results. The first occurrence of each element
  stays, as in a JavaScript \<^verbatim>\<open>Set\<close>. A \<^verbatim>\<open>Set\<close>, and \<^verbatim>\<open>x !== duplicate\<close> in
  \<^verbatim>\<open>_updateIndex\<close>, compare object references; the repository holds one object per
  event id, so on stored events this is equality of the values.
\<close>

fun uniq :: "'a list \<Rightarrow> 'a list" where
  "uniq [] = []"
| "uniq (x # xs) = x # uniq (filter (\<lambda>y. y \<noteq> x) xs)"

text \<open>
  Modelled from the spec: \<^verbatim>\<open>inc\<close> and \<^verbatim>\<open>range\<close> of \<^verbatim>\<open>@welshman/lib\<close>. The day buckets
  of a query span the days from that of \<open>since\<close> to that of \<open>until\<close> inclusive, which
  the source writes \<^verbatim>\<open>range(sinceDay, inc(untilDay))\<close>: \<^verbatim>\<open>range(a, b)\<close> yields \<open>a\<close>,
  \<open>a + 1\<close>, ... below \<open>b\<close>.
\<close>

definition inc :: "int \<Rightarrow> int" where
  "inc n = n + 1"

definition range_ints :: "int \<Rightarrow> int \<Rightarrow> int list" where
  "range_ints a b = [a..b - 1]"

text \<open>
  Modelled from the spec: \<^verbatim>\<open>sortBy\<close> of \<^verbatim>\<open>@welshman/lib\<close>. The walk is over the
  candidates sorted by \<open>created_at\<close> descending, which the source asks for with the key
  \<^verbatim>\<open>-e.created_at\<close>; no theorem below depends on the order of events with equal keys.
\<close>

definition sortBy :: "('a \<Rightarrow> int) \<Rightarrow> 'a list \<Rightarrow> 'a list" where
  "sortBy f xs = sort_key f xs"

text \<open>
  Modelled from the spec: \<^verbatim>\<open>chunk\<close> of \<^verbatim>\<open>@welshman/lib\<close>. The loader inserts the
  events in batches of a fixed size. A size of zero is outside what the specification
  describes and gives no batch here.
\<close>

function chunk :: "nat \<Rightarrow> 'a list \<Rightarrow> 'a list list" where
  "chunk n xs = (if n = 0 \<or> xs = [] then [] else take n xs # chunk n (drop n xs))"
  by pat_completeness auto
termination
  by (relation "measure (\<lambda>(n, xs). length xs)") auto

declare chunk.simps [simp del]

text \<open>\<^verbatim>\<open>tag.slice(0, 2).join(':')\<close>\<close>

fun join_colon :: "string list \<Rightarrow> string" where
  "join_colon [] = []"
| "join_colon [a] = a"
| "join_colon (a # b # rest) = a @ '':'' @ join_colon (b # rest)"

subsection \<open>Addresses\<close>

text \<open>
  Modelled from the spec: \<^verbatim>\<open>getAddress\<close> of \<^verbatim>\<open>./Address\<close>. The address of an
  event is the key \<^verbatim>\<open>kind:pubkey:d-tag-value\<close>, computed from the event's kind, its
  pubkey and its \<^verbatim>\<open>d\<close> tag (the empty string if absent).
\<close>

definition digit_char :: "nat \<Rightarrow> char" where
  "digit_char d = ''0123456789'' ! d"

fun digits_of :: "nat \<Rightarrow> string" where
  "digits_of n =
     (if n < 10 then [digit_char n]
      else digits_of (n div 10) @ [digit_char (n mod 10)])"

declare digits_of.simps [simp del]

definition string_of_int :: "int \<Rightarrow> string" where
  "string_of_int k = (if k < 0 then ''-'' @ digits_of (nat (- k)) else digits_of (nat k))"

definition dTagValue :: "event \<Rightarrow> string" where
  "dTagValue e =
     (case find (\<lambda>t. case t of [] \<Rightarrow> False | t0 # _ \<Rightarrow> t0 = ''d'') (tags e) of
        Some (_ # v # _) \<Rightarrow> v
      | _ \<Rightarrow> [])"

definition getAddress :: "event \<Rightarrow> string" where
  "getAddress e = string_of_int (kind e) @ '':'' @ pubkey e @ '':'' @ dTagValue e"

subsection \<open>Filter matching\<close>

text \<open>
  Modelled from the spec: \<^verbatim>\<open>matchFilter\<close> of \<^verbatim>\<open>./Filters\<close>. An event matches a
  filter iff every present field is satisfied: \<open>ids\<close>, \<open>authors\<close> and \<open>kinds\<close> as set
  membership, \<open>since\<close> and \<open>until\<close> as inclusive bounds on \<open>created_at\<close>, each \<^verbatim>\<open>#X\<close>
  field as "the event carries a tag whose first element is \<open>X\<close> and whose second
  element is in the given value set".
\<close>

definition member_opt :: "'a list option \<Rightarrow> 'a \<Rightarrow> bool" where
  "member_opt xs x = (case xs of None \<Rightarrow> True | Some l \<Rightarrow> x \<in> set l)"

definition carriesTag :: "event \<Rightarrow> string \<Rightarrow> string list \<Rightarrow> bool" where
  "carriesTag e x vs =
     list_ex (\<lambda>t. case t of (t0 # t1 # _) \<Rightarrow> t0 = x \<and> t1 \<in> set vs | _ \<Rightarrow> False) (tags e)"

definition matchTagField :: "event \<Rightarrow> string \<times> string list \<Rightarrow> bool" where
  "matchTagField e kv =
     (case fst kv of
        c # x \<Rightarrow> (if c = CHR ''#'' then carriesTag e x (snd kv) else True)
      | [] \<Rightarrow> True)"

definition matchFilter :: "filter \<Rightarrow> event \<Rightarrow> bool" where
  "matchFilter f e =
     (member_opt (ids f) (event_id e) \<and>
      member_opt (authors f) (pubkey e) \<and>
      member_opt (kinds f) (kind e) \<and>
      (case since f of None \<Rightarrow> True | Some t \<Rightarrow> t \<le> created_at e) \<and>
      (case until f of None \<Rightarrow> True | Some t \<Rightarrow> created_at e \<le> t) \<and>
      list_all (matchTagField e) (tagFields f))"

section \<open>The repository\<close>

text \<open>
  The state of a \<^verbatim>\<open>Repository\<close>. \<open>eventsById\<close> is a JavaScript \<^verbatim>\<open>Map\<close> whose
  insertion order the source reads (\<^verbatim>\<open>dump\<close>, the full scan of \<^verbatim>\<open>query\<close>): it is an
  association list in insertion order. The other maps are only looked up and stored
  into. The emitter is not part of the state: the notifications of \<^verbatim>\<open>publish\<close>,
  \<^verbatim>\<open>load\<close> and \<^verbatim>\<open>clear\<close>, and the set \<^verbatim>\<open>removed\<close> built for them, change no index
  and no result.
\<close>

record repository =
  eventsById :: "(string \<times> event) list"
  eventsByWrap :: "string \<rightharpoonup> event"
  eventsByAddress :: "string \<rightharpoonup> event"
  eventsByTag :: "string \<rightharpoonup> event list"
  eventsByDay :: "int \<rightharpoonup> event list"
  eventsByAuthor :: "string \<rightharpoonup> event list"
  deletes :: "string \<rightharpoonup> int"

text \<open>\<^verbatim>\<open>Map.set\<close> on an insertion-ordered map: a known key keeps its place.\<close>

fun map_set :: "('k \<times> 'v) list \<Rightarrow> 'k \<Rightarrow> 'v \<Rightarrow> ('k \<times> 'v) list" where
  "map_set [] k v = [(k, v)]"
| "map_set ((k', v') # m) k v =
     (if k' = k then (k, v) # m else (k', v') # map_set m k v)"

definition map_values :: "('k \<times> 'v) list \<Rightarrow> 'v list" where
  "map_values m = map snd m"

definition clear :: repository where
  "clear = \<lparr>eventsById = [], eventsByWrap = Map.empty, eventsByAddress = Map.empty,
            eventsByTag = Map.empty, eventsByDay = Map.empty, eventsByAuthor = Map.empty,
            deletes = Map.empty\<rparr>"

definition dump :: "repository \<Rightarrow> event list" where
  "dump s = map_values (eventsById s)"

text \<open>The truthiness of the result of \<^verbatim>\<open>Map.get\<close> when the values are objects.\<close>

definition present :: "'a option \<Rightarrow> bool" where
  "present x = (case x of None \<Rightarrow> False | Some v \<Rightarrow> True)"

lemma present_iff [simp]: "present x \<longleftrightarrow> x \<noteq> None"
  by (cases x) (simp_all add: present_def)

text \<open>\<^verbatim>\<open>this.deletes.get(k) || 0\<close>\<close>

definition tombstone :: "repository \<Rightarrow> string \<Rightarrow> int" where
  "tombstone s k = (case deletes s k of None \<Rightarrow> 0 | Some t \<Rightarrow> t)"

definition isDeletedByAddress :: "repository \<Rightarrow> event \<Rightarrow> bool" where
  "isDeletedByAddress s e = (tombstone s (getAddress e) > created_at e)"

definition isDeletedById :: "repository \<Rightarrow> event \<Rightarrow> bool" where
  "isDeletedById s e = (tombstone s (event_id e) > created_at e)"

definition isDeleted :: "repository \<Rightarrow> event \<Rightarrow> bool" where
  "isDeleted s e = (isDeletedByAddress s e \<or> isDeletedById s e)"

definition getEvent :: "repository \<Rightarrow> string \<Rightarrow> event option" where
  "getEvent s idOrAddress =
     (if CHR '':'' \<in> set idOrAddress then eventsByAddress s idOrAddress
      else map_of (eventsById s) idOrAddress)"

text \<open>
  \<^verbatim>\<open>hasEvent\<close> returns \<^verbatim>\<open>duplicate && ...\<close>: \<^verbatim>\<open>undefined\<close> when there is no
  duplicate, a boolean otherwise. \<open>False\<close> stands for both falsy results.
\<close>

definition hasEvent :: "repository \<Rightarrow> event \<Rightarrow> bool" where
  "hasEvent s e =
     (let duplicate = (case map_of (eventsById s) (event_id e) of
                         Some d \<Rightarrow> Some d
                       | None \<Rightarrow> eventsByAddress s (getAddress e))
      in case duplicate of None \<Rightarrow> False | Some d \<Rightarrow> created_at d \<ge> created_at e)"

subsection \<open>publish\<close>

datatype error = InvalidEvent | TypeError

text \<open>\<^verbatim>\<open>_updateIndex\<close>\<close>

definition updateIndex ::
  "('k \<rightharpoonup> event list) \<Rightarrow> 'k \<Rightarrow> event \<Rightarrow> event option \<Rightarrow> ('k \<rightharpoonup> event list)" where
  "updateIndex m k e duplicate =
     (let a = (case m k of None \<Rightarrow> [] | Some a \<Rightarrow> a);
          a = (case duplicate of None \<Rightarrow> a | Some d \<Rightarrow> filter (\<lambda>x. x \<noteq> d) a)
      in m(k \<mapsto> a @ [e]))"

text \<open>\<^verbatim>\<open>tag[0]?.length === 1\<close>\<close>

definition indexable :: "string list \<Rightarrow> bool" where
  "indexable tag = (case tag of [] \<Rightarrow> False | t0 # _ \<Rightarrow> length t0 = 1)"

text \<open>
  The loop of \<^verbatim>\<open>publish\<close> over \<^verbatim>\<open>event.tags\<close>. For a deletion event and a tag with no
  second element, \<^verbatim>\<open>tag[1]\<close> is \<^verbatim>\<open>undefined\<close> and \<^verbatim>\<open>getEvent\<close> throws a
  \<^verbatim>\<open>TypeError\<close> at \<^verbatim>\<open>idOrAddress.includes\<close>.
\<close>

fun publishTags ::
  "env \<Rightarrow> event \<Rightarrow> event option \<Rightarrow> string list list \<Rightarrow> repository \<Rightarrow> error + repository" where
  "publishTags env e duplicate [] s = Inr s"
| "publishTags env e duplicate (tag # rest) s =
     (if indexable tag then
        (let s1 = s\<lparr>eventsByTag :=
                     updateIndex (eventsByTag s) (join_colon (take 2 tag)) e duplicate\<rparr>
         in if kind e = DELETE env then
              (case tag of
                 (_ # v # _) \<Rightarrow>
                   publishTags env e duplicate rest
                     (s1\<lparr>deletes := (deletes s1)(v \<mapsto> max (created_at e) (tombstone s1 v))\<rparr>)
               | _ \<Rightarrow> Inl TypeError)
            else publishTags env e duplicate rest s1)
      else publishTags env e duplicate rest s)"

definition publish :: "env \<Rightarrow> repository \<Rightarrow> event \<Rightarrow> error + (bool \<times> repository)" where
  "publish env s e =
     (if \<not> isTrustedEvent env e then Inl InvalidEvent
      else if present (map_of (eventsById s) (event_id e)) \<or> isDeleted s e then Inr (False, s)
      else
        (let address = getAddress e;
             duplicate = eventsByAddress s address
         in if (case duplicate of None \<Rightarrow> False | Some d \<Rightarrow> created_at e \<le> created_at d)
            then Inr (False, s)
            else
              (let s1 = (case duplicate of
                           None \<Rightarrow> s
                         | Some d \<Rightarrow> s\<lparr>deletes := (deletes s)(event_id d \<mapsto> created_at e)\<rparr>);
                   s2 = s1\<lparr>eventsById := map_set (eventsById s1) (event_id e) e\<rparr>;
                   s3 = (if isReplaceable env e
                         then s2\<lparr>eventsByAddress := (eventsByAddress s2)(address \<mapsto> e)\<rparr>
                         else s2);
                   s4 = (case wrap e of
                           None \<Rightarrow> s3
                         | Some w \<Rightarrow> s3\<lparr>eventsByWrap := (eventsByWrap s3)(w \<mapsto> e)\<rparr>);
                   s5 = s4\<lparr>eventsByDay :=
                             updateIndex (eventsByDay s4) (getDay (created_at e)) e duplicate\<rparr>;
                   s6 = s5\<lparr>eventsByAuthor :=
                             updateIndex (eventsByAuthor s5) (pubkey e) e duplicate\<rparr>
               in case publishTags env e duplicate (tags e) s6 of
                    Inl err \<Rightarrow> Inl err
                  | Inr s7 \<Rightarrow> Inr (True, s7))))"

subsection \<open>load\<close>

text \<open>
  \<^verbatim>\<open>load\<close> clears the repository and publishes the events chunk by chunk; an exception
  of \<^verbatim>\<open>publish\<close> ends it. The pause between chunks (\<^verbatim>\<open>await sleep(1)\<close>) lets other code
  run; the model is of a load that nothing interleaves with.
\<close>

fun loadEvents :: "env \<Rightarrow> event list \<Rightarrow> repository \<Rightarrow> error + repository" where
  "loadEvents env [] s = Inr s"
| "loadEvents env (e # es) s =
     (case publish env s e of
        Inl err \<Rightarrow> Inl err
      | Inr (accepted, s') \<Rightarrow> loadEvents env es s')"

fun loadChunks :: "env \<Rightarrow> event list list \<Rightarrow> repository \<Rightarrow> error + repository" where
  "loadChunks env [] s = Inr s"
| "loadChunks env (eventsChunk # rest) s =
     (case loadEvents env eventsChunk s of
        Inl err \<Rightarrow> Inl err
      | Inr s' \<Rightarrow> loadChunks env rest s')"

definition load :: "env \<Rightarrow> event list \<Rightarrow> nat \<Rightarrow> error + repository" where
  "load env events chunkSize = loadChunks env (chunk chunkSize events) clear"

subsection \<open>query\<close>

text \<open>The truthiness of an optional number, and \<^verbatim>\<open>x || d\<close> on it.\<close>

definition truthy :: "int option \<Rightarrow> bool" where
  "truthy x = (case x of None \<Rightarrow> False | Some v \<Rightarrow> v \<noteq> 0)"

definition or_else :: "int option \<Rightarrow> int \<Rightarrow> int" where
  "or_else x d = (case x of None \<Rightarrow> d | Some v \<Rightarrow> if v \<noteq> 0 then v else d)"

text \<open>\<^verbatim>\<open>m.get(k) || []\<close>\<close>

definition bucket :: "('k \<rightharpoonup> event list) \<Rightarrow> 'k \<Rightarrow> event list" where
  "bucket m k = (case m k of None \<Rightarrow> [] | Some a \<Rightarrow> a)"

text \<open>\<^verbatim>\<open>k.startsWith('#') && k.length === 2\<close>\<close>

definition isTagKey :: "string \<Rightarrow> bool" where
  "isTagKey k = (case k of [c, x] \<Rightarrow> c = CHR ''#'' | _ \<Rightarrow> False)"

text \<open>
  The choice of the candidates of one filter, with the filter that is left to match.
\<close>

definition narrow :: "env \<Rightarrow> repository \<Rightarrow> filter \<Rightarrow> event list \<times> filter" where
  "narrow env s f =
     (case ids f of
        Some l \<Rightarrow> (List.map_filter (map_of (eventsById s)) l, f\<lparr>ids := None\<rparr>)
      | None \<Rightarrow>
     (case authors f of
        Some l \<Rightarrow> (uniq (concat (map (bucket (eventsByAuthor s)) l)), f\<lparr>authors := None\<rparr>)
      | None \<Rightarrow>
     (if truthy (since f) \<or> truthy (until f) then
        (let sinceDay = getDay (or_else (since f) (EPOCH env));
             untilDay = getDay (or_else (until f) (now env))
         in (uniq (concat (map (bucket (eventsByDay s)) (range_ints sinceDay (inc untilDay)))),
             f))
      else
        (case find (\<lambda>kv. isTagKey (fst kv)) (tagFields f) of
           Some (k, values) \<Rightarrow>
             (uniq (concat (map (\<lambda>v. bucket (eventsByTag s) ([k ! 1] @ '':'' @ v)) values)),
              f\<lparr>tagFields := filter (\<lambda>kv. fst kv \<noteq> k) (tagFields f)\<rparr>)
         | None \<Rightarrow> (map_values (eventsById s), f)))))"

text \<open>\<^verbatim>\<open>filter.limit && chunk.length >= filter.limit\<close>\<close>

definition limitReached :: "filter \<Rightarrow> event list \<Rightarrow> bool" where
  "limitReached f c =
     (case limit f of None \<Rightarrow> False | Some n \<Rightarrow> n \<noteq> 0 \<and> int (length c) \<ge> n)"

fun walk :: "repository \<Rightarrow> bool \<Rightarrow> filter \<Rightarrow> event list \<Rightarrow> event list \<Rightarrow> event list" where
  "walk s includeDeleted f c [] = c"
| "walk s includeDeleted f c (e # es) =
     (if limitReached f c then c
      else if \<not> includeDeleted \<and> isDeleted s e then walk s includeDeleted f c es
      else if matchFilter f e then walk s includeDeleted f (c @ [e]) es
      else walk s includeDeleted f c es)"

definition queryFilter :: "env \<Rightarrow> repository \<Rightarrow> bool \<Rightarrow> filter \<Rightarrow> event list" where
  "queryFilter env s includeDeleted f =
     (case narrow env s f of
        (events, f') \<Rightarrow> walk s includeDeleted f' [] (sortBy (\<lambda>e. - created_at e) events))"

definition query :: "env \<Rightarrow> repository \<Rightarrow> filter list \<Rightarrow> bool \<Rightarrow> event list" where
  "query env s filters includeDeleted =
     uniq (concat (map (queryFilter env s includeDeleted) filters))"

subsection \<open>Reachable states\<close>

text \<open>
  The states a repository goes through: empty at first, then changed by the calls of
  \<^verbatim>\<open>publish\<close> that return. A call that throws is an \<open>Inl\<close> and gives no state: what
  a repository holds after an exception in the middle of \<^verbatim>\<open>publish\<close> is outside the
  model.
\<close>

inductive reachable :: "env \<Rightarrow> repository \<Rightarrow> bool" for env :: env where
  reachable_clear: "reachable env clear"
| reachable_publish:
    "reachable env s \<Longrightarrow> publish env s e = Inr (b, s') \<Longrightarrow> reachable env s'"

subsection \<open>The full scan and the filters of the theorems\<close>

text \<open>
  The specification's reading of a query: the full scan of the stored events, most
  recent first, filtered by the whole filter and by the exclusion of deleted events.
\<close>

definition fullScanQuery :: "repository \<Rightarrow> bool \<Rightarrow> filter \<Rightarrow> event list" where
  "fullScanQuery s includeDeleted f =
     filter (\<lambda>x. (includeDeleted \<or> \<not> isDeleted s x) \<and> matchFilter f x)
       (sortBy (\<lambda>e. - created_at e) (dump s))"

text \<open>The filters of the theorems: one field, or two, and nothing else.\<close>

definition idsFilter :: "string list \<Rightarrow> filter" where
  "idsFilter l = \<lparr>ids = Some l, authors = None, kinds = None, since = None, until = None,
                  limit = None, tagFields = []\<rparr>"

definition timeFilter :: "int \<Rightarrow> int \<Rightarrow> filter" where
  "timeFilter T1 T2 = \<lparr>ids = None, authors = None, kinds = None, since = Some T1,
                        until = Some T2, limit = None, tagFields = []\<rparr>"

definition sinceLimitFilter :: "int \<Rightarrow> int \<Rightarrow> filter" where
  "sinceLimitFilter T N = \<lparr>ids = None, authors = None, kinds = None, since = Some T,
                            until = None, limit = Some N, tagFields = []\<rparr>"

section \<open>The steps of publish\<close>

text \<open>
  Two names for parts of \<^verbatim>\<open>publish\<close>, used by the proofs: \<open>rejects\<close> is the
  condition under which a trusted event is turned down, \<open>beforeTags\<close> the state an
  accepted event leaves when the loop over its tags starts.
\<close>

definition rejects :: "repository \<Rightarrow> event \<Rightarrow> bool" where
  "rejects s e =
     (present (map_of (eventsById s) (event_id e)) \<or> isDeleted s e \<or>
      (case eventsByAddress s (getAddress e) of
         None \<Rightarrow> False
       | Some d \<Rightarrow> created_at e \<le> created_at d))"

definition beforeTags :: "env \<Rightarrow> repository \<Rightarrow> event \<Rightarrow> repository" where
  "beforeTags env s e =
     (let duplicate = eventsByAddress s (getAddress e) in
      \<lparr>eventsById = map_set (eventsById s) (event_id e) e,
       eventsByWrap = (case wrap e of None \<Rightarrow> eventsByWrap s | Some w \<Rightarrow> (eventsByWrap s)(w \<mapsto> e)),
       eventsByAddress =
         (if isReplaceable env e then (eventsByAddress s)(getAddress e \<mapsto> e)
          else eventsByAddress s),
       eventsByTag = eventsByTag s,
       eventsByDay = updateIndex (eventsByDay s) (getDay (created_at e)) e duplicate,
       eventsByAuthor = updateIndex (eventsByAuthor s) (pubkey e) e duplicate,
       deletes =
         (case duplicate of
            None \<Rightarrow> deletes s
          | Some d \<Rightarrow> (deletes s)(event_id d \<mapsto> created_at e))\<rparr>)"

lemma publish_unfold:
  "publish env s e =
     (if \<not> isTrustedEvent env e then Inl InvalidEvent
      else if rejects s e then Inr (False, s)
      else case publishTags env e (eventsByAddress s (getAddress e)) (tags e) (beforeTags env s e) of
             Inl err \<Rightarrow> Inl err
           | Inr s7 \<Rightarrow> Inr (True, s7))"
proof -
  have eq: "(let s1 = (case eventsByAddress s (getAddress e) of
                           None \<Rightarrow> s
                         | Some d \<Rightarrow> s\<lparr>deletes := (deletes s)(event_id d \<mapsto> created_at e)\<rparr>);
                   s2 = s1\<lparr>eventsById := map_set (eventsById s1) (event_id e) e\<rparr>;
                   s3 = (if isReplaceable env e
                         then s2\<lparr>eventsByAddress := (eventsByAddress s2)(getAddress e \<mapsto> e)\<rparr>
                         else s2);
                   s4 = (case wrap e of
                           None \<Rightarrow> s3
                         | Some w \<Rightarrow> s3\<lparr>eventsByWrap := (eventsByWrap s3)(w \<mapsto> e)\<rparr>);
                   s5 = s4\<lparr>eventsByDay :=
                             updateIndex (eventsByDay s4) (getDay (created_at e)) e (eventsByAddress s (getAddress e))\<rparr>
               in s5\<lparr>eventsByAuthor :=
                             updateIndex (eventsByAuthor s5) (pubkey e) e (eventsByAddress s (getAddress e))\<rparr>)
        = beforeTags env s e"
    by (cases "eventsByAddress s (getAddress e)"; cases "wrap e"; cases "isReplaceable env e";
        simp add: beforeTags_def Let_def)
  show ?thesis
    unfolding publish_def rejects_def
    using eq by (simp add: Let_def)
qed

lemma map_of_map_set: "map_of (map_set m k v) k' = (if k' = k then Some v else map_of m k')"
  by (induction m) auto

lemma publish_cases:
  assumes "publish env s e = Inr (b, s')"
  shows "isTrustedEvent env e \<and>
         (if b then \<not> rejects s e \<and>
                    publishTags env e (eventsByAddress s (getAddress e)) (tags e) (beforeTags env s e) = Inr s'
          else rejects s e \<and> s' = s)"
  using assms unfolding publish_unfold
  by (auto split: if_splits sum.splits)

text \<open>One turn of the loop over the tags.\<close>

definition tagStep :: "env \<Rightarrow> event \<Rightarrow> event option \<Rightarrow> string list \<Rightarrow> repository \<Rightarrow> error + repository" where
  "tagStep env e duplicate tag s =
     (if indexable tag then
        (if kind e = DELETE env then
           (case tag of
              (_ # v # _) \<Rightarrow>
                Inr (s\<lparr>eventsByTag := updateIndex (eventsByTag s) (join_colon (take 2 tag)) e duplicate,
                       deletes := (deletes s)(v \<mapsto> max (created_at e) (tombstone s v))\<rparr>)
            | _ \<Rightarrow> Inl TypeError)
         else Inr (s\<lparr>eventsByTag := updateIndex (eventsByTag s) (join_colon (take 2 tag)) e duplicate\<rparr>))
      else Inr s)"

lemma tombstone_eventsByTag_update [simp]: "tombstone (s\<lparr>eventsByTag := m\<rparr>) k = tombstone s k"
  by (simp add: tombstone_def)

lemma publishTags_Cons:
  "publishTags env e d (tag # rest) s =
     (case tagStep env e d tag s of Inl err \<Rightarrow> Inl err | Inr s1 \<Rightarrow> publishTags env e d rest s1)"
  by (simp add: tagStep_def Let_def split: list.splits)

lemma publishTags_ConsE:
  assumes "publishTags env e d (tag # rest) s = Inr s'"
  obtains s1 where "tagStep env e d tag s = Inr s1" "publishTags env e d rest s1 = Inr s'"
  using assms unfolding publishTags_Cons by (auto split: sum.splits)

lemma tagStep_fields:
  assumes "tagStep env e d tag s = Inr s1"
  shows "eventsById s1 = eventsById s" "eventsByWrap s1 = eventsByWrap s"
    "eventsByAddress s1 = eventsByAddress s" "eventsByDay s1 = eventsByDay s"
    "eventsByAuthor s1 = eventsByAuthor s"
    "eventsByTag s1 = (if indexable tag then updateIndex (eventsByTag s) (join_colon (take 2 tag)) e d
                       else eventsByTag s)"
    "deletes s1 = (if indexable tag \<and> kind e = DELETE env
                   then (deletes s)(tag ! 1 \<mapsto> max (created_at e) (tombstone s (tag ! 1)))
                   else deletes s)"
    "indexable tag \<and> kind e = DELETE env \<longrightarrow> 2 \<le> length tag"
  using assms by (auto simp: tagStep_def split: if_splits list.splits)

lemma publishTags_frame:
  "publishTags env e d ts s = Inr s' \<Longrightarrow>
     eventsById s' = eventsById s \<and> eventsByWrap s' = eventsByWrap s \<and>
     eventsByAddress s' = eventsByAddress s \<and> eventsByDay s' = eventsByDay s \<and>
     eventsByAuthor s' = eventsByAuthor s"
proof (induction ts arbitrary: s)
  case Nil
  then show ?case by simp
next
  case (Cons tag rest)
  from Cons.prems(1) obtain s1 where st: "tagStep env e d tag s = Inr s1"
    and r: "publishTags env e d rest s1 = Inr s'"
    by (rule publishTags_ConsE)
  from Cons.IH[OF r] tagStep_fields(1-5)[OF st] show ?case by simp
qed

lemma tagStep_tombstone:
  assumes "tagStep env e d tag s = Inr s1"
  shows "tombstone s k \<le> tombstone s1 k" "tombstone s1 k \<le> max (tombstone s k) (created_at e)"
  using tagStep_fields(7)[OF assms] by (auto simp: tombstone_def)

lemma publishTags_tombstone_mono:
  "publishTags env e d ts s = Inr s' \<Longrightarrow> tombstone s k \<le> tombstone s' k"
proof (induction ts arbitrary: s)
  case Nil
  then show ?case by simp
next
  case (Cons tag rest)
  from Cons.prems(1) obtain s1 where st: "tagStep env e d tag s = Inr s1"
    and r: "publishTags env e d rest s1 = Inr s'"
    by (rule publishTags_ConsE)
  from Cons.IH[OF r] tagStep_tombstone(1)[OF st, of k] show ?case by simp
qed

lemma publishTags_tombstone_upper:
  "publishTags env e d ts s = Inr s' \<Longrightarrow> tombstone s' k \<le> max (tombstone s k) (created_at e)"
proof (induction ts arbitrary: s)
  case Nil
  then show ?case by simp
next
  case (Cons tag rest)
  from Cons.prems(1) obtain s1 where st: "tagStep env e d tag s = Inr s1"
    and r: "publishTags env e d rest s1 = Inr s'"
    by (rule publishTags_ConsE)
  from Cons.IH[OF r] tagStep_tombstone(2)[OF st, of k] show ?case by simp
qed

lemma publishTags_tombstone_target:
  "publishTags env e d ts s = Inr s' \<Longrightarrow> kind e = DELETE env \<Longrightarrow>
     tag \<in> set ts \<Longrightarrow> indexable tag \<Longrightarrow> created_at e \<le> tombstone s' (tag ! 1)"
proof (induction ts arbitrary: s)
  case Nil
  then show ?case by simp
next
  case (Cons t rest)
  from Cons.prems(1) obtain s1 where st: "tagStep env e d t s = Inr s1"
    and r: "publishTags env e d rest s1 = Inr s'"
    by (rule publishTags_ConsE)
  show ?case
  proof (cases "tag = t")
    case True
    with tagStep_fields(7)[OF st] Cons.prems have "created_at e \<le> tombstone s1 (tag ! 1)"
      by (simp add: tombstone_def)
    with publishTags_tombstone_mono[OF r, of "tag ! 1"] show ?thesis by simp
  next
    case False
    with Cons.prems have "tag \<in> set rest" by simp
    from Cons.IH[OF r Cons.prems(2) this Cons.prems(4)] show ?thesis .
  qed
qed

lemma beforeTags_tombstone:
  "tombstone (beforeTags env s e) k =
     (case eventsByAddress s (getAddress e) of
        None \<Rightarrow> tombstone s k
      | Some d \<Rightarrow> if k = event_id d then created_at e else tombstone s k)"
  by (simp add: beforeTags_def tombstone_def Let_def split: option.splits)

lemma publish_tombstone_upper:
  assumes "publish env s e = Inr (b, s')"
  shows "tombstone s' k \<le> max (tombstone s k) (created_at e)"
proof (cases b)
  case False
  with publish_cases[OF assms] show ?thesis by simp
next
  case True
  with publish_cases[OF assms] have
    t: "publishTags env e (eventsByAddress s (getAddress e)) (tags e) (beforeTags env s e) = Inr s'"
    by simp
  have "tombstone (beforeTags env s e) k \<le> max (tombstone s k) (created_at e)"
    by (simp add: beforeTags_tombstone split: option.splits)
  with publishTags_tombstone_upper[OF t, of k] show ?thesis by simp
qed

lemma isDeleted_iff:
  "isDeleted s x \<longleftrightarrow>
     tombstone s (getAddress x) > created_at x \<or> tombstone s (event_id x) > created_at x"
  by (simp add: isDeleted_def isDeletedByAddress_def isDeletedById_def)

lemma publish_rejected_same: "publish env s e = Inr (False, s') \<Longrightarrow> s' = s"
  using publish_cases[of env s e False s'] by simp

lemma publish_accepted_id:
  assumes "publish env s e = Inr (True, s')"
  shows "map_of (eventsById s') (event_id e) = Some e"
proof -
  from publish_cases[OF assms] have
    t: "publishTags env e (eventsByAddress s (getAddress e)) (tags e) (beforeTags env s e) = Inr s'"
    by simp
  have "map_of (eventsById (beforeTags env s e)) (event_id e) = Some e"
    by (simp add: beforeTags_def Let_def map_of_map_set)
  with publishTags_frame[OF t] show ?thesis by simp
qed

section \<open>Consistency of the indexes\<close>

text \<open>
  The events a repository holds, the keys of the tag buckets an event goes into, and the
  invariant of the reachable states: the ids are the keys of \<open>eventsById\<close>, the indexes
  hold stored events only, each under a key that fits it, and a stored event is in the
  buckets of its day, its author and its indexable tags unless its id is tombstoned
  after its \<open>created_at\<close>.
\<close>

definition stored :: "repository \<Rightarrow> event set" where
  "stored s = set (dump s)"

definition keysOf :: "string list list \<Rightarrow> string set" where
  "keysOf ts = {join_colon (take 2 t) | t. t \<in> set ts \<and> indexable t}"

definition indexedEverywhere :: "repository \<Rightarrow> event \<Rightarrow> bool" where
  "indexedEverywhere s x =
     (x \<in> set (bucket (eventsByDay s) (getDay (created_at x))) \<and>
      x \<in> set (bucket (eventsByAuthor s) (pubkey x)) \<and>
      (\<forall>k \<in> keysOf (tags x). x \<in> set (bucket (eventsByTag s) k)))"

definition consistent :: "repository \<Rightarrow> bool" where
  "consistent s =
     (distinct (map fst (eventsById s)) \<and>
      (\<forall>(k, x) \<in> set (eventsById s). k = event_id x) \<and>
      (\<forall>a d. eventsByAddress s a = Some d \<longrightarrow> d \<in> stored s) \<and>
      (\<forall>k x. x \<in> set (bucket (eventsByDay s) k) \<longrightarrow>
         x \<in> stored s \<and> getDay (created_at x) = k) \<and>
      (\<forall>p x. x \<in> set (bucket (eventsByAuthor s) p) \<longrightarrow> x \<in> stored s \<and> pubkey x = p) \<and>
      (\<forall>k x. x \<in> set (bucket (eventsByTag s) k) \<longrightarrow> x \<in> stored s \<and> k \<in> keysOf (tags x)) \<and>
      (\<forall>x \<in> stored s. isDeletedById s x \<or> indexedEverywhere s x))"

lemma keysOf_Cons:
  "keysOf (t # ts) = (if indexable t then insert (join_colon (take 2 t)) (keysOf ts) else keysOf ts)"
  by (auto simp: keysOf_def)

lemma keysOf_Nil [simp]: "keysOf [] = {}"
  by (simp add: keysOf_def)

lemma bucket_updateIndex:
  "set (bucket (updateIndex m k e d) k') =
     (if k' = k then (set (bucket m k) - set_option d) \<union> {e} else set (bucket m k'))"
  by (cases d) (auto simp: bucket_def updateIndex_def Let_def split: option.splits)

lemma tagStep_bucket:
  assumes "tagStep env e d tag s = Inr s1"
  shows "set (bucket (eventsByTag s1) k) =
     (if indexable tag \<and> k = join_colon (take 2 tag)
      then (set (bucket (eventsByTag s) k) - set_option d) \<union> {e}
      else set (bucket (eventsByTag s) k))"
  using tagStep_fields(6)[OF assms] by (simp add: bucket_updateIndex)

lemma publishTags_bucket:
  "publishTags env e d ts s = Inr s' \<Longrightarrow>
     set (bucket (eventsByTag s') k) =
       (if k \<in> keysOf ts then (set (bucket (eventsByTag s) k) - set_option d) \<union> {e}
        else set (bucket (eventsByTag s) k))"
proof (induction ts arbitrary: s)
  case Nil
  then show ?case by simp
next
  case (Cons tag rest)
  from Cons.prems obtain s1 where st: "tagStep env e d tag s = Inr s1"
    and r: "publishTags env e d rest s1 = Inr s'"
    by (rule publishTags_ConsE)
  show ?case
    unfolding Cons.IH[OF r] tagStep_bucket[OF st] keysOf_Cons by auto
qed

lemma map_set_fresh: "map_of m k = None \<Longrightarrow> map_set m k v = m @ [(k, v)]"
  by (induction m) (auto split: if_splits)

text \<open>What an accepted call leaves.\<close>

lemma publish_accepted_fields:
  assumes "publish env s e = Inr (True, s')"
  shows "isTrustedEvent env e" "\<not> rejects s e"
    "eventsById s' = eventsById s @ [(event_id e, e)]"
    "eventsByAddress s' =
       (if isReplaceable env e then (eventsByAddress s)(getAddress e \<mapsto> e) else eventsByAddress s)"
    "set (bucket (eventsByDay s') k) =
       (if k = getDay (created_at e)
        then (set (bucket (eventsByDay s) k) - set_option (eventsByAddress s (getAddress e))) \<union> {e}
        else set (bucket (eventsByDay s) k))"
    "set (bucket (eventsByAuthor s') p) =
       (if p = pubkey e
        then (set (bucket (eventsByAuthor s) p) - set_option (eventsByAddress s (getAddress e))) \<union> {e}
        else set (bucket (eventsByAuthor s) p))"
    "set (bucket (eventsByTag s') t) =
       (if t \<in> keysOf (tags e)
        then (set (bucket (eventsByTag s) t) - set_option (eventsByAddress s (getAddress e))) \<union> {e}
        else set (bucket (eventsByTag s) t))"
    "tombstone (beforeTags env s e) t \<le> tombstone s' t"
proof -
  from publish_cases[OF assms] have tr: "isTrustedEvent env e" and nr: "\<not> rejects s e"
    and t: "publishTags env e (eventsByAddress s (getAddress e)) (tags e) (beforeTags env s e) = Inr s'"
    by simp_all
  note fr = publishTags_frame[OF t]
  from nr have fresh: "map_of (eventsById s) (event_id e) = None"
    by (simp add: rejects_def)
  show "isTrustedEvent env e" by (rule tr)
  show "\<not> rejects s e" by (rule nr)
  show "eventsById s' = eventsById s @ [(event_id e, e)]"
    using fr fresh by (simp add: beforeTags_def Let_def map_set_fresh)
  show "eventsByAddress s' =
       (if isReplaceable env e then (eventsByAddress s)(getAddress e \<mapsto> e) else eventsByAddress s)"
    using fr by (simp add: beforeTags_def Let_def)
  show "set (bucket (eventsByDay s') k) =
       (if k = getDay (created_at e)
        then (set (bucket (eventsByDay s) k) - set_option (eventsByAddress s (getAddress e))) \<union> {e}
        else set (bucket (eventsByDay s) k))"
    using fr by (simp add: beforeTags_def Let_def bucket_updateIndex)
  show "set (bucket (eventsByAuthor s') p) =
       (if p = pubkey e
        then (set (bucket (eventsByAuthor s) p) - set_option (eventsByAddress s (getAddress e))) \<union> {e}
        else set (bucket (eventsByAuthor s) p))"
    using fr by (simp add: beforeTags_def Let_def bucket_updateIndex)
  show "set (bucket (eventsByTag s') t) =
       (if t \<in> keysOf (tags e)
        then (set (bucket (eventsByTag s) t) - set_option (eventsByAddress s (getAddress e))) \<union> {e}
        else set (bucket (eventsByTag s) t))"
    using publishTags_bucket[OF t, of t] by (simp add: beforeTags_def Let_def)
  show "tombstone (beforeTags env s e) t \<le> tombstone s' t"
    by (rule publishTags_tombstone_mono[OF t])
qed

lemma consistent_keys:
  assumes "consistent s"
  shows "distinct (map fst (eventsById s))" "(k, x) \<in> set (eventsById s) \<Longrightarrow> k = event_id x"
  using assms unfolding consistent_def by blast+

lemma consistent_address:
  assumes "consistent s" "eventsByAddress s a = Some d"
  shows "d \<in> stored s"
  using assms unfolding consistent_def by blast

lemma consistent_day:
  assumes "consistent s" "x \<in> set (bucket (eventsByDay s) k)"
  shows "x \<in> stored s" "getDay (created_at x) = k"
  using assms unfolding consistent_def by blast+

lemma consistent_author:
  assumes "consistent s" "x \<in> set (bucket (eventsByAuthor s) p)"
  shows "x \<in> stored s" "pubkey x = p"
  using assms unfolding consistent_def by blast+

lemma consistent_tag:
  assumes "consistent s" "x \<in> set (bucket (eventsByTag s) k)"
  shows "x \<in> stored s" "k \<in> keysOf (tags x)"
  using assms unfolding consistent_def by blast+

lemma consistent_indexed:
  assumes "consistent s" "x \<in> stored s"
  shows "isDeletedById s x \<or> indexedEverywhere s x"
  using assms unfolding consistent_def by blast

lemma stored_iff: "x \<in> stored s \<longleftrightarrow> (\<exists>k. (k, x) \<in> set (eventsById s))"
  by (force simp: stored_def dump_def map_values_def)

lemma stored_pair:
  assumes "consistent s" "x \<in> stored s"
  shows "(event_id x, x) \<in> set (eventsById s)"
  using assms consistent_keys(2) unfolding stored_iff by blast

lemma stored_unique:
  assumes "consistent s" "x \<in> stored s" "y \<in> stored s" "event_id x = event_id y"
  shows "x = y"
  using stored_pair[OF assms(1,2)] stored_pair[OF assms(1,3)] consistent_keys(1)[OF assms(1)] assms(4)
  by (metis eq_key_imp_eq_value)

lemma stored_lookup:
  assumes "consistent s"
  shows "map_of (eventsById s) i = Some x \<longleftrightarrow> x \<in> stored s \<and> event_id x = i"
proof
  assume "map_of (eventsById s) i = Some x"
  then have m: "(i, x) \<in> set (eventsById s)" by (rule map_of_SomeD)
  then have "x \<in> stored s" unfolding stored_iff by blast
  with m consistent_keys(2)[OF assms] show "x \<in> stored s \<and> event_id x = i" by blast
next
  assume a: "x \<in> stored s \<and> event_id x = i"
  with stored_pair[OF assms] have "(i, x) \<in> set (eventsById s)" by blast
  with consistent_keys(1)[OF assms] show "map_of (eventsById s) i = Some x" by simp
qed

lemma consistent_clear: "consistent clear"
  by (simp add: consistent_def clear_def bucket_def stored_def dump_def map_values_def)

lemma publish_accepted_consistent:
  assumes c: "consistent s" and acc: "publish env s e = Inr (True, s')"
  shows "consistent s'"
proof -
  note F = publish_accepted_fields[OF acc]
  from F(2) have fresh: "map_of (eventsById s) (event_id e) = None"
    by (simp add: rejects_def)
  have newer: "created_at d < created_at e" if "eventsByAddress s (getAddress e) = Some d" for d
    using F(2) that by (simp add: rejects_def)
  have st: "stored s' = insert e (stored s)"
    by (simp add: stored_def dump_def map_values_def F(3))
  have enew: "e \<notin> stored s"
  proof
    assume "e \<in> stored s"
    with stored_lookup[OF c, of "event_id e" e] fresh show False by simp
  qed
  have k1: "distinct (map fst (eventsById s'))"
    using consistent_keys(1)[OF c] fresh by (simp add: F(3) map_of_eq_None_iff)
  have k2: "\<forall>(k, x) \<in> set (eventsById s'). k = event_id x"
    using consistent_keys(2)[OF c] by (auto simp: F(3))
  have a: "\<forall>a d. eventsByAddress s' a = Some d \<longrightarrow> d \<in> stored s'"
    using consistent_address[OF c] by (auto simp: F(4) st split: if_splits)
  have dy: "\<forall>k x. x \<in> set (bucket (eventsByDay s') k) \<longrightarrow>
              x \<in> stored s' \<and> getDay (created_at x) = k"
    using consistent_day[OF c] by (auto simp: F(5) st split: if_splits)
  have au: "\<forall>p x. x \<in> set (bucket (eventsByAuthor s') p) \<longrightarrow> x \<in> stored s' \<and> pubkey x = p"
    using consistent_author[OF c] by (auto simp: F(6) st split: if_splits)
  have tg: "\<forall>k x. x \<in> set (bucket (eventsByTag s') k) \<longrightarrow> x \<in> stored s' \<and> k \<in> keysOf (tags x)"
    using consistent_tag[OF c] by (auto simp: F(7) st split: if_splits)
  have ix: "isDeletedById s' x \<or> indexedEverywhere s' x" if xs: "x \<in> stored s'" for x
  proof (cases "x = e")
    case True
    then have "indexedEverywhere s' x"
      by (simp add: indexedEverywhere_def F(5,6,7))
    then show ?thesis ..
  next
    case False
    with xs st have xo: "x \<in> stored s" by simp
    show ?thesis
    proof (cases "eventsByAddress s (getAddress e) = Some x")
      case True
      then have "tombstone (beforeTags env s e) (event_id x) = created_at e"
        by (simp add: beforeTags_tombstone)
      with F(8)[of "event_id x"] newer[OF True] have "isDeletedById s' x"
        by (simp add: isDeletedById_def)
      then show ?thesis ..
    next
      case notdup: False
      from consistent_indexed[OF c xo] show ?thesis
      proof
        assume del: "isDeletedById s x"
        have "created_at x < tombstone (beforeTags env s e) (event_id x)"
        proof (cases "eventsByAddress s (getAddress e)")
          case None
          with del show ?thesis by (simp add: beforeTags_tombstone isDeletedById_def)
        next
          case (Some d)
          show ?thesis
          proof (cases "event_id x = event_id d")
            case True
            from consistent_address[OF c Some] have "d \<in> stored s" .
            with stored_unique[OF c xo this True] Some notdup show ?thesis by simp
          next
            case False
            with Some del show ?thesis by (simp add: beforeTags_tombstone isDeletedById_def)
          qed
        qed
        with F(8)[of "event_id x"] have "isDeletedById s' x"
          by (simp add: isDeletedById_def)
        then show ?thesis ..
      next
        assume "indexedEverywhere s x"
        with notdup have "indexedEverywhere s' x"
          by (auto simp: indexedEverywhere_def F(5,6,7))
        then show ?thesis ..
      qed
    qed
  qed
  show ?thesis
    unfolding consistent_def using k1 k2 a dy au tg ix by blast
qed

lemma reachable_consistent: "reachable env s \<Longrightarrow> consistent s"
proof (induction rule: reachable.induct)
  case reachable_clear
  show ?case by (rule consistent_clear)
next
  case (reachable_publish s e b s')
  show ?case
  proof (cases b)
    case True
    with reachable_publish.hyps have "publish env s e = Inr (True, s')" by simp
    with reachable_publish.IH show ?thesis by (rule publish_accepted_consistent)
  next
    case False
    with reachable_publish publish_cases[of env s e False s'] show ?thesis by simp
  qed
qed

section \<open>The walk of a query\<close>

lemma set_uniq [simp]: "set (uniq xs) = set xs"
proof (induction xs rule: uniq.induct)
  case 1
  show ?case by simp
next
  case (2 x xs)
  then show ?case by auto
qed

lemma distinct_uniq [simp]: "distinct (uniq xs)"
proof (induction xs rule: uniq.induct)
  case 1
  show ?case by simp
next
  case (2 x xs)
  then show ?case by simp
qed

lemma uniq_distinct: "distinct xs \<Longrightarrow> uniq xs = xs"
proof (induction xs)
  case Nil
  show ?case by simp
next
  case (Cons x xs)
  then have "filter (\<lambda>y. y \<noteq> x) xs = xs" by (auto intro: filter_True)
  with Cons show ?case by simp
qed

lemma set_sortBy [simp]: "set (sortBy f xs) = set xs"
  by (simp add: sortBy_def)

lemma distinct_sortBy [simp]: "distinct (sortBy f xs) = distinct xs"
  by (simp add: sortBy_def)

lemma sorted_sortBy: "sorted (map f (sortBy f xs))"
  by (simp add: sortBy_def)

text \<open>What the walk of \<^verbatim>\<open>query\<close> keeps of the candidates.\<close>

definition keep :: "repository \<Rightarrow> bool \<Rightarrow> filter \<Rightarrow> event \<Rightarrow> bool" where
  "keep s includeDeleted f x = ((includeDeleted \<or> \<not> isDeleted s x) \<and> matchFilter f x)"

lemma walk_Cons_keep:
  "walk s incl f c (x # xs) =
     (if limitReached f c then c
      else if keep s incl f x then walk s incl f (c @ [x]) xs
      else walk s incl f c xs)"
  by (auto simp: keep_def)

declare walk.simps(2) [simp del]

lemma walk_eq:
  "walk s incl f c xs =
     (if limitReached f c then c
      else c @ (case limit f of
                  None \<Rightarrow> filter (keep s incl f) xs
                | Some n \<Rightarrow> if n = 0 then filter (keep s incl f) xs
                            else take (nat n - length c) (filter (keep s incl f) xs)))"
proof (induction xs arbitrary: c)
  case Nil
  show ?case by (simp split: option.splits)
next
  case (Cons x xs)
  show ?case
  proof (cases "limitReached f c")
    case True
    then show ?thesis by (simp add: walk_Cons_keep)
  next
    case nr: False
    show ?thesis
    proof (cases "keep s incl f x")
      case False
      with nr Cons[of c] show ?thesis by (simp add: walk_Cons_keep split: option.splits)
    next
      case True
      with nr have w: "walk s incl f c (x # xs) = walk s incl f (c @ [x]) xs"
        by (simp add: walk_Cons_keep)
      show ?thesis
      proof (cases "limit f")
        case None
        with nr True w Cons[of "c @ [x]"] show ?thesis by (simp add: limitReached_def)
      next
        case (Some n)
        show ?thesis
        proof (cases "n = 0")
          case True
          with Some nr \<open>keep s incl f x\<close> w Cons[of "c @ [x]"] show ?thesis
            by (simp add: limitReached_def)
        next
          case False
          with Some nr have lt: "int (length c) < n" by (simp add: limitReached_def)
          then obtain m where m: "nat n - length c = Suc m" "nat n - length (c @ [x]) = m"
            by (cases "nat n - length c") auto
          show ?thesis
          proof (cases "limitReached f (c @ [x])")
            case True
            with Some False lt have "m = 0" using m by (auto simp: limitReached_def)
            with True Some False nr \<open>keep s incl f x\<close> w m Cons[of "c @ [x]"] show ?thesis
              by simp
          next
            case nr2: False
            with Some False nr \<open>keep s incl f x\<close> w m Cons[of "c @ [x]"] show ?thesis
              by simp
          qed
        qed
      qed
    qed
  qed
qed

lemma set_map_filter: "set (List.map_filter g l) = {x. \<exists>i \<in> set l. g i = Some x}"
  by (induction l) (auto simp: map_filter_simps split: option.splits)

lemma distinct_map_filter:
  assumes "distinct l" "\<And>i j x. g i = Some x \<Longrightarrow> g j = Some x \<Longrightarrow> i = j"
  shows "distinct (List.map_filter g l)"
  using assms(1)
proof (induction l)
  case Nil
  show ?case by (simp add: map_filter_simps)
next
  case (Cons i l)
  show ?case
  proof (cases "g i")
    case None
    with Cons show ?thesis by (simp add: map_filter_simps)
  next
    case (Some x)
    have "x \<notin> set (List.map_filter g l)"
    proof
      assume "x \<in> set (List.map_filter g l)"
      then obtain j where "j \<in> set l" "g j = Some x" by (auto simp: set_map_filter)
      with assms(2)[OF Some] Cons.prems show False by auto
    qed
    with Some Cons show ?thesis by (simp add: map_filter_simps)
  qed
qed

lemma distinct_dump: "consistent s \<Longrightarrow> distinct (dump s)"
proof -
  assume c: "consistent s"
  have "inj_on snd (set (eventsById s))"
  proof (rule inj_onI)
    fix p q assume pq: "p \<in> set (eventsById s)" "q \<in> set (eventsById s)" "snd p = snd q"
    obtain a x where p: "p = (a, x)" by (cases p)
    obtain b y where q: "q = (b, y)" by (cases q)
    from pq p q consistent_keys(2)[OF c, of a x] consistent_keys(2)[OF c, of b y]
    show "p = q" by simp
  qed
  moreover from consistent_keys(1)[OF c] have "distinct (eventsById s)"
    by (simp add: distinct_map)
  ultimately show ?thesis by (simp add: dump_def map_values_def distinct_map)
qed

lemma getDay_mono: "a \<le> b \<Longrightarrow> getDay a \<le> getDay b"
  by (simp add: getDay_def DAY_def zdiv_mono1)

lemma set_range_ints: "set (range_ints a (inc b)) = {a..b}"
  by (simp add: range_ints_def inc_def)

lemma not_deleted_indexed:
  assumes "consistent s" "x \<in> stored s" "\<not> isDeleted s x"
  shows "indexedEverywhere s x"
  using consistent_indexed[OF assms(1,2)] assms(3) by (simp add: isDeleted_def)

section \<open>The candidates of a filter\<close>

text \<open>
  The events a query of one filter can return. When the candidates come from the day
  buckets, only the days from that of \<^verbatim>\<open>filter.since || EPOCH\<close> to that of
  \<^verbatim>\<open>filter.until || now()\<close> are scanned.
\<close>

definition scanned :: "env \<Rightarrow> filter \<Rightarrow> event \<Rightarrow> bool" where
  "scanned env f x =
     (if ids f = None \<and> authors f = None \<and> (truthy (since f) \<or> truthy (until f))
      then getDay (or_else (since f) (EPOCH env)) \<le> getDay (created_at x) \<and>
           getDay (created_at x) \<le> getDay (or_else (until f) (now env))
      else True)"

definition matches :: "env \<Rightarrow> repository \<Rightarrow> filter \<Rightarrow> event set" where
  "matches env s f = {x \<in> stored s. \<not> isDeleted s x \<and> matchFilter f x \<and> scanned env f x}"

lemma join_colon_key:
  assumes "indexable t"
  shows "join_colon (take 2 t) = [c] @ '':'' @ v \<longleftrightarrow> (\<exists>r. t = [c] # v # r)"
proof (cases t)
  case Nil
  with assms show ?thesis by (simp add: indexable_def)
next
  case (Cons t0 r0)
  with assms obtain c' where t0: "t0 = [c']"
    by (cases t0) (auto simp: indexable_def)
  show ?thesis
  proof (cases r0)
    case Nil
    with Cons t0 show ?thesis by simp
  next
    case (Cons t1 r)
    with \<open>t = t0 # r0\<close> t0 show ?thesis by auto
  qed
qed

lemma keysOf_iff: "k \<in> keysOf ts \<longleftrightarrow> (\<exists>t \<in> set ts. indexable t \<and> join_colon (take 2 t) = k)"
  by (auto simp: keysOf_def)

lemma carriesTag_keys:
  "carriesTag x [c] vs \<longleftrightarrow> (\<exists>v \<in> set vs. [c] @ '':'' @ v \<in> keysOf (tags x))"
proof
  assume "carriesTag x [c] vs"
  then obtain t where t: "t \<in> set (tags x)"
    and m: "case t of (t0 # t1 # r) \<Rightarrow> t0 = [c] \<and> t1 \<in> set vs | _ \<Rightarrow> False"
    by (auto simp: carriesTag_def list_ex_iff)
  from m obtain v r where tv: "t = [c] # v # r" "v \<in> set vs"
    by (auto split: list.splits)
  then have i: "indexable t" by (simp add: indexable_def)
  with tv join_colon_key[OF i, of c v] have "join_colon (take 2 t) = [c] @ '':'' @ v" by blast
  with t i have "[c] @ '':'' @ v \<in> keysOf (tags x)" unfolding keysOf_iff by blast
  with tv show "\<exists>v \<in> set vs. [c] @ '':'' @ v \<in> keysOf (tags x)" by blast
next
  assume "\<exists>v \<in> set vs. [c] @ '':'' @ v \<in> keysOf (tags x)"
  then obtain v t where v: "v \<in> set vs" and t: "t \<in> set (tags x)" and i: "indexable t"
    and j: "join_colon (take 2 t) = [c] @ '':'' @ v"
    unfolding keysOf_iff by blast
  from j join_colon_key[OF i, of c v] obtain r where "t = [c] # v # r" by blast
  with t v show "carriesTag x [c] vs"
    by (auto simp: carriesTag_def list_ex_iff intro!: bexI[of _ t])
qed

lemma matchFilter_ids:
  "ids f = Some l \<Longrightarrow> matchFilter f x \<longleftrightarrow> event_id x \<in> set l \<and> matchFilter (f\<lparr>ids := None\<rparr>) x"
  by (simp add: matchFilter_def member_opt_def)

lemma matchFilter_authors:
  "authors f = Some l \<Longrightarrow>
     matchFilter f x \<longleftrightarrow> pubkey x \<in> set l \<and> matchFilter (f\<lparr>authors := None\<rparr>) x"
  by (auto simp: matchFilter_def member_opt_def)

lemma list_all_split_key:
  assumes "distinct (map fst kvs)" "(k, vs) \<in> set kvs"
  shows "list_all P kvs \<longleftrightarrow> P (k, vs) \<and> list_all P (filter (\<lambda>kv. fst kv \<noteq> k) kvs)"
proof -
  have u: "kv = (k, vs)" if a: "kv \<in> set kvs" "fst kv = k" for kv
  proof -
    obtain k' v' where kv: "kv = (k', v')" by (cases kv)
    with a have "(k, v') \<in> set kvs" by simp
    with assms(1) have "v' = vs" using assms(2) by (rule eq_key_imp_eq_value)
    with kv a show ?thesis by simp
  qed
  show ?thesis
    unfolding list_all_iff
  proof
    assume "\<forall>kv \<in> set kvs. P kv"
    with assms(2) show "P (k, vs) \<and> (\<forall>kv \<in> set (filter (\<lambda>kv. fst kv \<noteq> k) kvs). P kv)"
      by simp
  next
    assume r: "P (k, vs) \<and> (\<forall>kv \<in> set (filter (\<lambda>kv. fst kv \<noteq> k) kvs). P kv)"
    show "\<forall>kv \<in> set kvs. P kv"
    proof
      fix kv assume m: "kv \<in> set kvs"
      show "P kv"
      proof (cases "fst kv = k")
        case True
        with u[OF m] r show ?thesis by simp
      next
        case False
        with m have "kv \<in> set (filter (\<lambda>kv. fst kv \<noteq> k) kvs)" by simp
        with r show ?thesis by blast
      qed
    qed
  qed
qed

lemma matchFilter_tag:
  assumes "distinct (map fst (tagFields f))" "(k, vs) \<in> set (tagFields f)"
  shows "matchFilter f x \<longleftrightarrow>
           matchTagField x (k, vs) \<and>
           matchFilter (f\<lparr>tagFields := filter (\<lambda>kv. fst kv \<noteq> k) (tagFields f)\<rparr>) x"
  using list_all_split_key[OF assms, of "matchTagField x"]
  by (simp add: matchFilter_def) blast

lemma isTagKey_D:
  assumes "isTagKey k"
  obtains c where "k = [CHR ''#'', c]"
  using assms by (auto simp: isTagKey_def split: list.splits)

lemma bucket_concat:
  "x \<in> set (uniq (concat (map (bucket m) ks))) \<longleftrightarrow> (\<exists>k \<in> set ks. x \<in> set (bucket m k))"
  by auto

lemma find_SomeD: "find P xs = Some y \<Longrightarrow> y \<in> set xs \<and> P y"
  by (induction xs) (auto split: if_splits)

lemma narrow_sound:
  assumes c: "consistent s"
    and di: "\<And>l. ids f = Some l \<Longrightarrow> distinct l"
    and dk: "distinct (map fst (tagFields f))"
    and n: "narrow env s f = (events, f')"
  shows "distinct events" "limit f' = limit f"
    "\<not> isDeleted s x \<Longrightarrow>
       (x \<in> set events \<and> matchFilter f' x) = (x \<in> stored s \<and> matchFilter f x \<and> scanned env f x)"
proof -
  have goal: "distinct events \<and> limit f' = limit f \<and>
     (\<not> isDeleted s x \<longrightarrow>
       (x \<in> set events \<and> matchFilter f' x) = (x \<in> stored s \<and> matchFilter f x \<and> scanned env f x))"
  proof (cases "ids f")
    case (Some l)
    with n have ev: "events = List.map_filter (map_of (eventsById s)) l" and f': "f' = f\<lparr>ids := None\<rparr>"
      by (simp_all add: narrow_def)
    have inj: "i = j" if "map_of (eventsById s) i = Some y" "map_of (eventsById s) j = Some y" for i j y
      using that stored_lookup[OF c] by auto
    have d: "distinct events"
      unfolding ev using di[OF Some] inj by (rule distinct_map_filter)
    have m: "y \<in> set events \<longleftrightarrow> y \<in> stored s \<and> event_id y \<in> set l" for y
      using stored_lookup[OF c] by (auto simp: ev set_map_filter)
    have sc: "scanned env f x" using Some by (simp add: scanned_def)
    from d m[of x] sc matchFilter_ids[OF Some, of x] show ?thesis
      by (auto simp: f')
  next
    case None
    note noids = this
    show ?thesis
    proof (cases "authors f")
      case (Some l)
      with n noids have ev: "events = uniq (concat (map (bucket (eventsByAuthor s)) l))"
        and f': "f' = f\<lparr>authors := None\<rparr>"
        by (simp_all add: narrow_def)
      have sc: "scanned env f x" using Some by (simp add: scanned_def)
      have m: "x \<in> set events \<longleftrightarrow> x \<in> stored s \<and> pubkey x \<in> set l" if nd: "\<not> isDeleted s x"
      proof
        assume "x \<in> set events"
        then obtain p where "p \<in> set l" "x \<in> set (bucket (eventsByAuthor s) p)"
          unfolding ev bucket_concat by blast
        with consistent_author[OF c, of x p] show "x \<in> stored s \<and> pubkey x \<in> set l" by simp
      next
        assume a: "x \<in> stored s \<and> pubkey x \<in> set l"
        with not_deleted_indexed[OF c _ nd] have "x \<in> set (bucket (eventsByAuthor s) (pubkey x))"
          by (simp add: indexedEverywhere_def)
        with a show "x \<in> set events" unfolding ev bucket_concat by blast
      qed
      from m sc matchFilter_authors[OF Some, of x] show ?thesis
        by (auto simp: f' ev)
    next
      case None
      note noauthors = this
      show ?thesis
      proof (cases "truthy (since f) \<or> truthy (until f)")
        case True
        let ?sd = "getDay (or_else (since f) (EPOCH env))"
        let ?ud = "getDay (or_else (until f) (now env))"
        from n noids noauthors True
        have ev: "events = uniq (concat (map (bucket (eventsByDay s)) (range_ints ?sd (inc ?ud))))"
          and f': "f' = f"
          by (auto simp: narrow_def Let_def)
        have sc: "scanned env f x \<longleftrightarrow> ?sd \<le> getDay (created_at x) \<and> getDay (created_at x) \<le> ?ud"
          using noids noauthors True by (simp add: scanned_def)
        have m: "x \<in> set events \<longleftrightarrow> x \<in> stored s \<and> scanned env f x" if nd: "\<not> isDeleted s x"
        proof
          assume "x \<in> set events"
          then obtain d where "d \<in> {?sd..?ud}" "x \<in> set (bucket (eventsByDay s) d)"
            unfolding ev bucket_concat set_range_ints by blast
          with consistent_day[OF c, of x d] show "x \<in> stored s \<and> scanned env f x"
            by (simp add: sc)
        next
          assume a: "x \<in> stored s \<and> scanned env f x"
          with not_deleted_indexed[OF c _ nd]
          have "x \<in> set (bucket (eventsByDay s) (getDay (created_at x)))"
            by (simp add: indexedEverywhere_def)
          moreover from a have "getDay (created_at x) \<in> {?sd..?ud}" by (simp add: sc)
          ultimately show "x \<in> set events" unfolding ev bucket_concat set_range_ints by blast
        qed
        from m show ?thesis by (auto simp: f' ev)
      next
        case False
        note notime = this
        then have sc: "scanned env f x" by (simp add: scanned_def)
        show ?thesis
        proof (cases "find (\<lambda>kv. isTagKey (fst kv)) (tagFields f)")
          case None
          with n noids noauthors notime have ev: "events = dump s" and f': "f' = f"
            by (auto simp: narrow_def dump_def)
          from distinct_dump[OF c] sc show ?thesis by (simp add: ev f' stored_def)
        next
          case (Some kv)
          obtain k vs where kv: "kv = (k, vs)" by (cases kv)
          from find_SomeD[OF Some] kv have mem: "(k, vs) \<in> set (tagFields f)" and tk: "isTagKey k"
            by simp_all
          from tk obtain c' where k: "k = [CHR ''#'', c']" by (rule isTagKey_D)
          from n noids noauthors notime Some kv k
          have ev: "events = uniq (concat (map (bucket (eventsByTag s)) (map (\<lambda>v. [c'] @ '':'' @ v) vs)))"
            and f': "f' = f\<lparr>tagFields := filter (\<lambda>kv. fst kv \<noteq> k) (tagFields f)\<rparr>"
            by (simp_all add: narrow_def comp_def)
          have mt: "matchTagField x (k, vs) = carriesTag x [c'] vs"
            by (simp add: matchTagField_def k)
          have m: "x \<in> set events \<longleftrightarrow> x \<in> stored s \<and> carriesTag x [c'] vs" if nd: "\<not> isDeleted s x"
          proof
            assume "x \<in> set events"
            then obtain v where v: "v \<in> set vs" "x \<in> set (bucket (eventsByTag s) ([c'] @ '':'' @ v))"
              unfolding ev bucket_concat by auto
            with consistent_tag[OF c v(2)] show "x \<in> stored s \<and> carriesTag x [c'] vs"
              unfolding carriesTag_keys by blast
          next
            assume a: "x \<in> stored s \<and> carriesTag x [c'] vs"
            then obtain v where v: "v \<in> set vs" "[c'] @ '':'' @ v \<in> keysOf (tags x)"
              unfolding carriesTag_keys by blast
            with a not_deleted_indexed[OF c _ nd]
            have "x \<in> set (bucket (eventsByTag s) ([c'] @ '':'' @ v))"
              by (simp add: indexedEverywhere_def)
            with v(1) show "x \<in> set events" unfolding ev bucket_concat by auto
          qed
          from m sc mt matchFilter_tag[OF dk mem, of x] show ?thesis
            by (auto simp: f' ev)
        qed
      qed
    qed
  qed
  from goal show "distinct events" "limit f' = limit f"
    "\<not> isDeleted s x \<Longrightarrow>
       (x \<in> set events \<and> matchFilter f' x) = (x \<in> stored s \<and> matchFilter f x \<and> scanned env f x)"
    by blast+
qed

lemma sorted_map_filter: "sorted (map f xs) \<Longrightarrow> sorted (map f (filter P xs))"
  by (induction xs) auto

section \<open>Replaying a dump\<close>

lemma loadEvents_append:
  "loadEvents env (xs @ ys) s =
     (case loadEvents env xs s of Inl err \<Rightarrow> Inl err | Inr s' \<Rightarrow> loadEvents env ys s')"
  by (induction xs arbitrary: s) (auto split: sum.splits)

lemma loadChunks_chunk:
  "0 < n \<Longrightarrow> loadChunks env (chunk n xs) s = loadEvents env xs s"
proof (induction n xs arbitrary: s rule: chunk.induct)
  case (1 n xs)
  show ?case
  proof (cases "xs = []")
    case True
    then show ?thesis by (simp add: chunk.simps)
  next
    case False
    with 1 have ih: "loadChunks env (chunk n (drop n xs)) s' = loadEvents env (drop n xs) s'" for s'
      by simp
    have "loadEvents env xs s = loadEvents env (take n xs @ drop n xs) s" by simp
    also have "\<dots> = (case loadEvents env (take n xs) s of
                        Inl err \<Rightarrow> Inl err
                      | Inr s' \<Rightarrow> loadEvents env (drop n xs) s')"
      by (rule loadEvents_append)
    finally show ?thesis
      using False 1(2) by (subst chunk.simps) (simp add: ih split: sum.splits)
  qed
qed

lemma reachable_replay: "reachable env s \<Longrightarrow> loadEvents env (dump s) clear = Inr s"
proof (induction rule: reachable.induct)
  case reachable_clear
  show ?case by (simp add: dump_def clear_def map_values_def)
next
  case (reachable_publish s e b s')
  show ?case
  proof (cases b)
    case False
    with reachable_publish.hyps(2) have "s' = s" using publish_cases[of env s e False s'] by simp
    with reachable_publish.IH show ?thesis by simp
  next
    case True
    with reachable_publish.hyps(2) have p: "publish env s e = Inr (True, s')" by simp
    from publish_accepted_fields(3)[OF p] have "dump s' = dump s @ [e]"
      by (simp add: dump_def map_values_def)
    with reachable_publish.IH p show ?thesis
      by (simp add: loadEvents_append)
  qed
qed

section \<open>Sample inputs\<close>

text \<open>
  A sample environment and sample events, on which the theorems below are run: every
  event is trusted, the kinds from 30000 to 39999 are replaceable, the deletion kind
  is 5, \<^verbatim>\<open>EPOCH\<close> is the start of the epoch and the clock reads 1700000000.
\<close>

lemma accepted_caseD:
  assumes "case r of Inr (b, s) \<Rightarrow> b \<and> P s | Inl err \<Rightarrow> False"
  obtains s where "r = Inr (True, s)" "P s"
  using assms by (cases r) auto

definition sample_env :: env where
  "sample_env = \<lparr>isTrustedEvent = (\<lambda>e. True),
                  isReplaceable = (\<lambda>e. 30000 \<le> kind e \<and> kind e < 40000),
                  DELETE = 5, EPOCH = 0, now = 1700000000\<rparr>"

definition mk_event :: "string \<Rightarrow> string \<Rightarrow> int \<Rightarrow> int \<Rightarrow> string list list \<Rightarrow> event" where
  "mk_event i p t k ts =
     \<lparr>event_id = i, pubkey = p, created_at = t, kind = k, tags = ts, content = [], wrap = None\<rparr>"

definition note60 :: event where
  "note60 = mk_event ''x'' ''alice'' 60 1 []"

definition delete_at :: "int \<Rightarrow> event" where
  "delete_at t = mk_event ''del'' ''alice'' t 5 [[''e'', ''x'']]"

definition article_a :: event where
  "article_a = mk_event ''a'' ''alice'' 100 30000 [[''d'', ''x''], [''t'', ''news'']]"

definition article_b :: event where
  "article_b = mk_event ''b'' ''alice'' 100 30000 [[''d'', ''x'']]"

definition article_c :: "int \<Rightarrow> event" where
  "article_c t = mk_event ''c'' ''alice'' t 30000 [[''d'', ''x'']]"

definition delete_of_a :: event where
  "delete_of_a = mk_event ''del_a'' ''alice'' 1000 5 [[''e'', ''a'']]"

lemma string_of_int_samples:
  "string_of_int 30000 = ''30000''" "string_of_int 5 = ''5''" "string_of_int 1 = ''1''"
  by (simp_all add: string_of_int_def digits_of.simps digit_char_def)

lemmas run_simps = publish_unfold rejects_def beforeTags_def isDeleted_def isDeletedByAddress_def
  isDeletedById_def tombstone_def getAddress_def dTagValue_def string_of_int_samples
  sample_env_def mk_event_def updateIndex_def indexable_def clear_def getDay_def DAY_def
  Let_def bucket_def

definition idsLimitFilter :: "string list \<Rightarrow> int \<Rightarrow> filter" where
  "idsLimitFilter l N = \<lparr>ids = Some l, authors = None, kinds = None, since = None,
                          until = None, limit = Some N, tagFields = []\<rparr>"

definition note_recent :: event where
  "note_recent = mk_event ''r'' ''alice'' 1699990000 1 []"

definition note_ahead :: event where
  "note_ahead = mk_event ''f'' ''alice'' 1700100000 1 []"

lemma sample_state:
  obtains s where "publish sample_env clear article_a = Inr (True, s)" "reachable sample_env s"
    "stored s = {article_a}" "\<not> isDeleted s article_a"
proof -
  have "case publish sample_env clear article_a of
          Inr (b, s) \<Rightarrow> b \<and> \<not> isDeleted s article_a
        | Inl err \<Rightarrow> False"
    by (simp add: run_simps article_a_def)
  then obtain s where p: "publish sample_env clear article_a = Inr (True, s)"
    and nd: "\<not> isDeleted s article_a"
    by (auto elim!: accepted_caseD)
  from reachable_publish[OF reachable_clear p] have r: "reachable sample_env s" .
  from publish_accepted_fields(3)[OF p] have st: "stored s = {article_a}"
    by (simp add: stored_def dump_def map_values_def clear_def)
  from p r st nd show ?thesis by (rule that)
qed

text \<open>The sample environment with \<^verbatim>\<open>EPOCH\<close> at the first second of 2021.\<close>

definition late_epoch_env :: env where
  "late_epoch_env = sample_env\<lparr>EPOCH := 1609459200\<rparr>"

definition note0 :: event where
  "note0 = mk_event ''z'' ''alice'' 0 1 []"

definition note_day1 :: event where
  "note_day1 = mk_event ''y'' ''alice'' 86460 1 []"

lemma three_notes_state:
  obtains s where "loadEvents sample_env [note0, note60, note_day1] clear = Inr s"
    "reachable sample_env s" "stored s = {note0, note60, note_day1}"
    "\<not> isDeleted s note0" "\<not> isDeleted s note60" "\<not> isDeleted s note_day1"
proof -
  have "case publish sample_env clear note0 of
          Inr (b, s) \<Rightarrow> b \<and>
            (case publish sample_env s note60 of
               Inr (b', s') \<Rightarrow> b' \<and>
                 (case publish sample_env s' note_day1 of
                    Inr (b'', s'') \<Rightarrow> b'' \<and>
                      (\<not> isDeleted s'' note0 \<and> \<not> isDeleted s'' note60 \<and>
                       \<not> isDeleted s'' note_day1)
                  | Inl err \<Rightarrow> False)
             | Inl err \<Rightarrow> False)
        | Inl err \<Rightarrow> False"
    by (simp add: run_simps note0_def note60_def note_day1_def)
  then obtain s1 where p1: "publish sample_env clear note0 = Inr (True, s1)"
    and c1: "case publish sample_env s1 note60 of
               Inr (b', s') \<Rightarrow> b' \<and>
                 (case publish sample_env s' note_day1 of
                    Inr (b'', s'') \<Rightarrow> b'' \<and>
                      (\<not> isDeleted s'' note0 \<and> \<not> isDeleted s'' note60 \<and>
                       \<not> isDeleted s'' note_day1)
                  | Inl err \<Rightarrow> False)
             | Inl err \<Rightarrow> False"
    by (rule accepted_caseD)
  from c1 obtain s2 where p2: "publish sample_env s1 note60 = Inr (True, s2)"
    and c2: "case publish sample_env s2 note_day1 of
                    Inr (b'', s'') \<Rightarrow> b'' \<and>
                      (\<not> isDeleted s'' note0 \<and> \<not> isDeleted s'' note60 \<and>
                       \<not> isDeleted s'' note_day1)
                  | Inl err \<Rightarrow> False"
    by (rule accepted_caseD)
  from c2 obtain s3 where p3: "publish sample_env s2 note_day1 = Inr (True, s3)"
    and nd: "\<not> isDeleted s3 note0 \<and> \<not> isDeleted s3 note60 \<and> \<not> isDeleted s3 note_day1"
    by (rule accepted_caseD)
  have r: "reachable sample_env s3"
    using reachable_publish[OF reachable_publish[OF reachable_publish[OF reachable_clear p1] p2] p3] .
  have st: "stored s3 = {note0, note60, note_day1}"
    using publish_accepted_fields(3)[OF p1] publish_accepted_fields(3)[OF p2]
      publish_accepted_fields(3)[OF p3]
    by (auto simp: stored_def dump_def map_values_def clear_def)
  have l: "loadEvents sample_env [note0, note60, note_day1] clear = Inr s3"
    using p1 p2 p3 by simp
  from l r st nd show ?thesis by (auto intro: that)
qed

section \<open>Deletion\<close>

text \<open>
  C4. A tombstone counts only when it is later than its target. \<open>isDeleted\<close> holds
  iff the timestamp recorded in \<open>deletes\<close> for the event's address or for its id (0
  when none is recorded) is greater than the event's \<open>created_at\<close>. When \<open>publish\<close>
  accepts a deletion event with a one-letter tag whose value is the id of \<open>x\<close>: if the
  deletion is later than \<open>x\<close> then \<open>x\<close> is deleted afterwards; if it is not later and
  \<open>x\<close> was not deleted before, \<open>x\<close> is not deleted afterwards. (A deletion at 70 deletes
  an event of 60, a deletion at 50 does not.)
\<close>

theorem deletion_ordering_guard:
  "(isDeleted s x \<longleftrightarrow>
      created_at x < (case deletes s (getAddress x) of None \<Rightarrow> 0 | Some t \<Rightarrow> t) \<or>
      created_at x < (case deletes s (event_id x) of None \<Rightarrow> 0 | Some t \<Rightarrow> t)) \<and>
   (publish env s d = Inr (True, s') \<and> kind d = DELETE env \<and>
    [c] # event_id x # rest \<in> set (tags d)
    \<longrightarrow> (created_at x < created_at d \<longrightarrow> isDeleted s' x) \<and>
        (created_at d \<le> created_at x \<and> \<not> isDeleted s x \<longrightarrow> \<not> isDeleted s' x))"
proof (intro conjI impI)
  show "isDeleted s x \<longleftrightarrow>
      created_at x < (case deletes s (getAddress x) of None \<Rightarrow> 0 | Some t \<Rightarrow> t) \<or>
      created_at x < (case deletes s (event_id x) of None \<Rightarrow> 0 | Some t \<Rightarrow> t)"
    by (simp add: isDeleted_iff tombstone_def)
next
  assume a: "publish env s d = Inr (True, s') \<and> kind d = DELETE env \<and>
    [c] # event_id x # rest \<in> set (tags d)"
    and lt: "created_at x < created_at d"
  from a publish_cases[of env s d True s'] have
    t: "publishTags env d (eventsByAddress s (getAddress d)) (tags d) (beforeTags env s d) = Inr s'"
    by simp
  from publishTags_tombstone_target[OF t, of "[c] # event_id x # rest"] a
  have "created_at d \<le> tombstone s' (event_id x)"
    by (simp add: indexable_def)
  with lt show "isDeleted s' x" by (simp add: isDeleted_iff)
next
  assume a: "publish env s d = Inr (True, s') \<and> kind d = DELETE env \<and>
    [c] # event_id x # rest \<in> set (tags d)"
    and le: "created_at d \<le> created_at x \<and> \<not> isDeleted s x"
  from a have p: "publish env s d = Inr (True, s')" by simp
  from publish_tombstone_upper[OF p, of "getAddress x"] publish_tombstone_upper[OF p, of "event_id x"] le
  show "\<not> isDeleted s' x" by (auto simp: isDeleted_iff)
qed

theorem deletion_ordering_guard_witness:
  "(case publish sample_env clear note60 of
      Inr (b, s) \<Rightarrow>
        (case publish sample_env s (delete_at 50) of
           Inr (b', s') \<Rightarrow> b' \<and> \<not> isDeleted s' note60
         | Inl err \<Rightarrow> False) \<and>
        (case publish sample_env s (delete_at 70) of
           Inr (b', s') \<Rightarrow> b' \<and> isDeleted s' note60
         | Inl err \<Rightarrow> False)
    | Inl err \<Rightarrow> False)"
proof -
  have "case publish sample_env clear note60 of
          Inr (b, s) \<Rightarrow>
            b \<and> (\<not> isDeleted s note60 \<and>
            (case publish sample_env s (delete_at 50) of Inr (b', s') \<Rightarrow> b' \<and> True | Inl err \<Rightarrow> False) \<and>
            (case publish sample_env s (delete_at 70) of Inr (b', s') \<Rightarrow> b' \<and> True | Inl err \<Rightarrow> False))
        | Inl err \<Rightarrow> False"
    by code_simp
  then obtain s where p: "publish sample_env clear note60 = Inr (True, s)"
    and nd: "\<not> isDeleted s note60"
    and c50: "case publish sample_env s (delete_at 50) of Inr (b', s') \<Rightarrow> b' \<and> True | Inl err \<Rightarrow> False"
    and c70: "case publish sample_env s (delete_at 70) of Inr (b', s') \<Rightarrow> b' \<and> True | Inl err \<Rightarrow> False"
    by (auto elim!: accepted_caseD)
  from c50 obtain s50 where p50: "publish sample_env s (delete_at 50) = Inr (True, s50)"
    by (auto elim!: accepted_caseD)
  from c70 obtain s70 where p70: "publish sample_env s (delete_at 70) = Inr (True, s70)"
    by (auto elim!: accepted_caseD)
  have k: "kind (delete_at t) = DELETE sample_env" for t
    by (simp add: delete_at_def mk_event_def sample_env_def)
  have tg: "[CHR ''e''] # event_id note60 # [] \<in> set (tags (delete_at t))" for t
    by (simp add: delete_at_def mk_event_def note60_def)
  have c: "created_at (delete_at 50) \<le> created_at note60" "created_at note60 < created_at (delete_at 70)"
    by (simp_all add: delete_at_def mk_event_def note60_def)
  from deletion_ordering_guard[of s note60 sample_env "delete_at 50" s50 "CHR ''e''" "[]"]
    p50 k tg c nd
  have a: "\<not> isDeleted s50 note60" by blast
  from deletion_ordering_guard[of s note60 sample_env "delete_at 70" s70 "CHR ''e''" "[]"]
    p70 k tg c
  have b: "isDeleted s70 note60" by blast
  from p p50 p70 a b show ?thesis by simp
qed

section \<open>Rejection\<close>

text \<open>
  C5. A trusted event whose id is already present, that is tombstoned, or that is not
  newer than the event at its address is turned down: \<open>publish\<close> returns false and
  the state, with all its indexes and its \<open>deletes\<close> table, is the one before. Every call
  that returns false leaves the state as it was. After any returning call for an event,
  a second call for the same event returns false and changes nothing.
\<close>

theorem publish_rejected_unchanged:
  "(isTrustedEvent env e \<and>
      (map_of (eventsById s) (event_id e) \<noteq> None \<or> isDeleted s e \<or>
       (\<exists>d. eventsByAddress s (getAddress e) = Some d \<and> created_at e \<le> created_at d))
      \<longrightarrow> publish env s e = Inr (False, s)) \<and>
   (publish env s e = Inr (False, s') \<longrightarrow> s' = s) \<and>
   (publish env s e = Inr (b, s1) \<longrightarrow> publish env s1 e = Inr (False, s1))"
proof (intro conjI impI)
  assume "isTrustedEvent env e \<and>
      (map_of (eventsById s) (event_id e) \<noteq> None \<or> isDeleted s e \<or>
       (\<exists>d. eventsByAddress s (getAddress e) = Some d \<and> created_at e \<le> created_at d))"
  then show "publish env s e = Inr (False, s)"
    by (auto simp: publish_unfold rejects_def)
next
  assume "publish env s e = Inr (False, s')"
  then show "s' = s" by (rule publish_rejected_same)
next
  assume p: "publish env s e = Inr (b, s1)"
  from publish_cases[OF p] have tr: "isTrustedEvent env e" by simp
  show "publish env s1 e = Inr (False, s1)"
  proof (cases b)
    case True
    with p have "publish env s e = Inr (True, s1)" by simp
    then have "map_of (eventsById s1) (event_id e) = Some e" by (rule publish_accepted_id)
    with tr show ?thesis by (simp add: publish_unfold rejects_def)
  next
    case False
    with p have q: "publish env s e = Inr (False, s1)" by simp
    then have "s1 = s" by (rule publish_rejected_same)
    with q show ?thesis using False by simp
  qed
qed

theorem publish_rejected_unchanged_witness:
  "(case publish sample_env clear note60 of
      Inr (b, s1) \<Rightarrow> b \<and> publish sample_env s1 note60 = Inr (False, s1)
    | Inl err \<Rightarrow> False)"
proof -
  have "case publish sample_env clear note60 of Inr (b, s1) \<Rightarrow> b \<and> True | Inl err \<Rightarrow> False"
    by code_simp
  then obtain s1 where p: "publish sample_env clear note60 = Inr (True, s1)"
    by (auto elim!: accepted_caseD)
  from publish_rejected_unchanged[of sample_env note60 clear clear True s1] p
  have "publish sample_env s1 note60 = Inr (False, s1)" by simp
  with p show ?thesis by simp
qed

section \<open>Supersession\<close>

text \<open>
  C1. The table \<open>deletes\<close> is meant to grow only. The loop over the tags of a deletion
  event merges with \<open>max\<close>, but the supersession step of \<open>publish\<close> stores the new
  event's \<open>created_at\<close> under the incumbent's id whatever is recorded there. Here the
  article \<open>a\<close> (at 100) is published, then a deletion of \<open>a\<close> at 1000, then a newer
  version of the article at 200: the timestamp recorded for \<open>a\<close> goes from 1000 down
  to 200.
\<close>

theorem tombstone_rewound:
  "(case loadEvents sample_env [article_a, delete_of_a] clear of
      Inr s \<Rightarrow>
        deletes s ''a'' = Some 1000 \<and>
        (case publish sample_env s (article_c 200) of
           Inr (b, s') \<Rightarrow> b \<and> deletes s' ''a'' = Some 200
         | Inl err \<Rightarrow> False)
    | Inl err \<Rightarrow> False)"
  by (simp add: run_simps article_a_def article_c_def delete_of_a_def)

text \<open>
  C2. When an accepted event supersedes the incumbent of its address, the incumbent
  stays in \<open>eventsById\<close>, the address maps to the new event and \<open>deletes\<close> records
  the incumbent's id at the new event's timestamp; \<open>_updateIndex\<close> is to take the
  incumbent out of the buckets. It filters the bucket found under the key of the new
  event, so an incumbent of another day, or with a tag the new event does not carry,
  stays in its own bucket. Here the article \<open>a\<close> of day 0 with the tag \<open>t:news\<close> is
  superseded by a version created on day 1 without that tag: \<open>a\<close> is gone from the
  author bucket and is still in the bucket of day 0 and in the bucket \<open>t:news\<close>.
\<close>

theorem superseded_left_in_buckets:
  "(case publish sample_env clear article_a of
      Inr (b, s) \<Rightarrow>
        b \<and>
        (case publish sample_env s (article_c 86500) of
           Inr (b', s') \<Rightarrow>
             b' \<and> getAddress (article_c 86500) = getAddress article_a \<and>
             eventsByAddress s' (getAddress article_a) = Some (article_c 86500) \<and>
             map_of (eventsById s') ''a'' = Some article_a \<and>
             deletes s' ''a'' = Some 86500 \<and>
             article_a \<notin> set (bucket (eventsByAuthor s') ''alice'') \<and>
             article_a \<in> set (bucket (eventsByDay s') (getDay 100)) \<and>
             article_a \<in> set (bucket (eventsByTag s') ''t:news'')
         | Inl err \<Rightarrow> False)
    | Inl err \<Rightarrow> False)"
  by (simp add: run_simps article_a_def article_c_def)

text \<open>
  C3. The articles \<open>a\<close> (at 100), \<open>b\<close> (at 100) and \<open>c\<close> (at 101) of one address are
  published in this order into an empty repository: \<open>b\<close> is turned down, \<open>c\<close> is
  accepted, \<open>a\<close> is tombstoned at 101 and gone from the day bucket, the author bucket
  and the bucket \<open>d:x\<close>, the address maps to \<open>c\<close>. The tag \<open>t:news\<close> is carried by
  \<open>a\<close> only, and \<open>a\<close> is still in that bucket.
\<close>

theorem last_writer_wins_scenario:
  "(case publish sample_env clear article_a of
      Inr (b1, s1) \<Rightarrow>
        b1 \<and>
        (case publish sample_env s1 article_b of
           Inr (b2, s2) \<Rightarrow>
             \<not> b2 \<and>
             (case publish sample_env s2 (article_c 101) of
                Inr (b3, s3) \<Rightarrow>
                  b3 \<and> deletes s3 ''a'' = Some 101 \<and>
                  eventsByAddress s3 (getAddress article_a) = Some (article_c 101) \<and>
                  article_a \<notin> set (bucket (eventsByDay s3) (getDay 100)) \<and>
                  article_a \<notin> set (bucket (eventsByAuthor s3) ''alice'') \<and>
                  article_a \<notin> set (bucket (eventsByTag s3) ''d:x'') \<and>
                  article_a \<in> set (bucket (eventsByTag s3) ''t:news'')
              | Inl err \<Rightarrow> False)
         | Inl err \<Rightarrow> False)
    | Inl err \<Rightarrow> False)"
  by (simp add: run_simps article_a_def article_b_def article_c_def)

section \<open>Lookups and queries\<close>

text \<open>
  C10. In a reachable state, and for an event \<open>e\<close> whose id stands for its content (a
  stored event with the id of \<open>e\<close> has the \<open>created_at\<close> of \<open>e\<close>), \<open>hasEvent\<close> is true
  exactly when an event with the id of \<open>e\<close> is stored, or the event held at the address
  of \<open>e\<close> has a \<open>created_at\<close> greater than or equal to that of \<open>e\<close>.
\<close>

theorem hasEvent_iff:
  assumes "reachable env s"
    and "\<forall>d \<in> stored s. event_id d = event_id e \<longrightarrow> created_at d = created_at e"
  shows "hasEvent s e \<longleftrightarrow>
           (\<exists>d \<in> stored s. event_id d = event_id e) \<or>
           (\<exists>d. eventsByAddress s (getAddress e) = Some d \<and> created_at d \<ge> created_at e)"
proof -
  from assms(1) have c: "consistent s" by (rule reachable_consistent)
  show ?thesis
  proof (cases "map_of (eventsById s) (event_id e)")
    case None
    have "\<not> (\<exists>d \<in> stored s. event_id d = event_id e)"
    proof
      assume "\<exists>d \<in> stored s. event_id d = event_id e"
      then obtain d where "d \<in> stored s" "event_id d = event_id e" by blast
      with stored_lookup[OF c, of "event_id e" d] None show False by simp
    qed
    with None show ?thesis by (auto simp: hasEvent_def split: option.splits)
  next
    case (Some d)
    with stored_lookup[OF c, of "event_id e" d] have d: "d \<in> stored s" "event_id d = event_id e"
      by simp_all
    with assms(2) have "created_at d = created_at e" by blast
    with Some d show ?thesis by (auto simp: hasEvent_def)
  qed
qed

theorem hasEvent_iff_witness:
  "(case publish sample_env clear article_a of
      Inr (b, s) \<Rightarrow> b \<and> hasEvent s article_a
    | Inl err \<Rightarrow> False)"
proof -
  obtain s where p: "publish sample_env clear article_a = Inr (True, s)"
    and r: "reachable sample_env s" and st: "stored s = {article_a}"
    by (rule sample_state)
  from hasEvent_iff[OF r, of article_a] st have "hasEvent s article_a" by simp
  with p show ?thesis by simp
qed

text \<open>
  C7. In a reachable state, the query for a filter with only the field \<open>ids\<close> returns
  the events that the full scan filtered by the same filter returns, with the same
  exclusion of deleted events, each of them once.
\<close>

theorem ids_narrowing_equivalence:
  assumes "reachable env s"
  shows "set (query env s [idsFilter l] includeDeleted) = set (fullScanQuery s includeDeleted (idsFilter l)) \<and>
         distinct (query env s [idsFilter l] includeDeleted) \<and>
         distinct (fullScanQuery s includeDeleted (idsFilter l))"
proof -
  from assms have c: "consistent s" by (rule reachable_consistent)
  have n: "narrow env s (idsFilter l) =
             (List.map_filter (map_of (eventsById s)) l, (idsFilter l)\<lparr>ids := None\<rparr>)"
    by (simp add: narrow_def idsFilter_def)
  have m: "matchFilter ((idsFilter l)\<lparr>ids := None\<rparr>) x" for x
    by (simp add: matchFilter_def idsFilter_def member_opt_def)
  have m2: "matchFilter (idsFilter l) x \<longleftrightarrow> event_id x \<in> set l" for x
    by (simp add: matchFilter_def idsFilter_def member_opt_def)
  have q: "queryFilter env s includeDeleted (idsFilter l) =
             filter (\<lambda>x. includeDeleted \<or> \<not> isDeleted s x)
               (sortBy (\<lambda>e. - created_at e) (List.map_filter (map_of (eventsById s)) l))"
  proof -
    have l: "limit ((idsFilter l)\<lparr>ids := None\<rparr>) = None" by (simp add: idsFilter_def)
    have k: "keep s includeDeleted ((idsFilter l)\<lparr>ids := None\<rparr>) =
               (\<lambda>x. includeDeleted \<or> \<not> isDeleted s x)"
      by (rule ext) (simp add: keep_def m)
    show ?thesis
      unfolding queryFilter_def n by (simp add: walk_eq limitReached_def l k)
  qed
  have cand: "set (List.map_filter (map_of (eventsById s)) l) = {x \<in> stored s. event_id x \<in> set l}"
    using stored_lookup[OF c] by (auto simp: set_map_filter)
  have s1: "set (query env s [idsFilter l] includeDeleted) =
              {x \<in> stored s. event_id x \<in> set l \<and> (includeDeleted \<or> \<not> isDeleted s x)}"
    by (auto simp: query_def q cand)
  have s2: "set (fullScanQuery s includeDeleted (idsFilter l)) =
              {x \<in> stored s. event_id x \<in> set l \<and> (includeDeleted \<or> \<not> isDeleted s x)}"
    by (auto simp: fullScanQuery_def m2 stored_def)
  have d2: "distinct (fullScanQuery s includeDeleted (idsFilter l))"
    using distinct_dump[OF c] by (simp add: fullScanQuery_def)
  from s1 s2 d2 show ?thesis by (simp add: query_def)
qed

theorem ids_narrowing_equivalence_witness:
  "(case publish sample_env clear article_a of
      Inr (b, s) \<Rightarrow>
        b \<and> set (query sample_env s [idsFilter [''a'', ''b'']] False) =
              set (fullScanQuery s False (idsFilter [''a'', ''b'']))
    | Inl err \<Rightarrow> False)"
proof -
  obtain s where p: "publish sample_env clear article_a = Inr (True, s)"
    and r: "reachable sample_env s"
    by (rule sample_state)
  from ids_narrowing_equivalence[OF r, of "[''a'', ''b'']" False] p show ?thesis by simp
qed

text \<open>
  C6. In a reachable state, the query for the filter with \<open>since = T1\<close> and
  \<open>until = T2\<close> alone, deleted events excluded, returns exactly the stored events
  with \<open>T1 \<le> created_at \<le> T2\<close> that are not deleted, each once, wherever the bounds
  fall in their days, provided that a bound of 0 is covered by its default: the source
  takes a bound of 0 for an absent one (\<^verbatim>\<open>filter.since || EPOCH\<close>,
  \<^verbatim>\<open>filter.until || now()\<close>), so for \<open>T1 = 0\<close> the constant \<^verbatim>\<open>EPOCH\<close> has to lie
  before the end of day 0, and for \<open>T2 = 0\<close> the clock has to read 0 or more.
\<close>

theorem day_bucket_coverage:
  assumes "reachable env s"
    and "T1 = 0 \<longrightarrow> EPOCH env < DAY"
    and "T2 = 0 \<longrightarrow> 0 \<le> now env"
  shows "set (query env s [timeFilter T1 T2] False) =
           {x \<in> stored s. T1 \<le> created_at x \<and> created_at x \<le> T2 \<and> \<not> isDeleted s x} \<and>
         distinct (query env s [timeFilter T1 T2] False)"
proof -
  from assms(1) have c: "consistent s" by (rule reachable_consistent)
  let ?f = "timeFilter T1 T2"
  let ?sd = "getDay (or_else (Some T1) (EPOCH env))"
  let ?ud = "getDay (or_else (Some T2) (now env))"
  let ?days = "uniq (concat (map (bucket (eventsByDay s)) (range_ints ?sd (inc ?ud))))"
  have k: "keep s False ?f x \<longleftrightarrow> \<not> isDeleted s x \<and> T1 \<le> created_at x \<and> created_at x \<le> T2" for x
    by (simp add: keep_def matchFilter_def timeFilter_def member_opt_def)
  have l: "limit ?f = None" by (simp add: timeFilter_def)
  obtain events where n: "narrow env s ?f = (events, ?f)"
    and ev: "events = (if T1 \<noteq> 0 \<or> T2 \<noteq> 0 then ?days else dump s)"
    by (simp add: narrow_def timeFilter_def truthy_def dump_def Let_def)
  have q: "queryFilter env s False ?f = filter (keep s False ?f) (sortBy (\<lambda>e. - created_at e) events)"
    unfolding queryFilter_def n by (simp add: walk_eq limitReached_def l)
  have sub: "set events \<subseteq> stored s"
    using consistent_day(1)[OF c] by (auto simp: ev stored_def)
  have sup: "x \<in> set events" if xs: "x \<in> stored s" and kx: "keep s False ?f x" for x
  proof (cases "T1 \<noteq> 0 \<or> T2 \<noteq> 0")
    case False
    with xs show ?thesis by (simp add: ev stored_def)
  next
    case True
    from kx have nd: "\<not> isDeleted s x" and lo: "T1 \<le> created_at x" and hi: "created_at x \<le> T2"
      by (simp_all add: k)
    from not_deleted_indexed[OF c xs nd]
    have b: "x \<in> set (bucket (eventsByDay s) (getDay (created_at x)))"
      by (simp add: indexedEverywhere_def)
    have "?sd \<le> getDay (created_at x)"
    proof (cases "T1 = 0")
      case False
      with lo show ?thesis by (simp add: or_else_def getDay_mono)
    next
      case True
      with assms(2) have "EPOCH env \<le> DAY - 1" by simp
      then have "getDay (EPOCH env) \<le> getDay (DAY - 1)" by (rule getDay_mono)
      then have e: "getDay (EPOCH env) \<le> 0" by (simp add: getDay_def DAY_def)
      from True lo have "getDay 0 \<le> getDay (created_at x)" by (simp add: getDay_mono)
      then have "0 \<le> getDay (created_at x)" by (simp add: getDay_def)
      with e True show ?thesis by (simp add: or_else_def)
    qed
    moreover have "getDay (created_at x) \<le> ?ud"
    proof (cases "T2 = 0")
      case False
      with hi show ?thesis by (simp add: or_else_def getDay_mono)
    next
      case True
      with assms(3) hi have "created_at x \<le> now env" by simp
      with True show ?thesis by (simp add: or_else_def getDay_mono)
    qed
    ultimately have "getDay (created_at x) \<in> set (range_ints ?sd (inc ?ud))"
      by (simp add: set_range_ints)
    with b True show ?thesis by (auto simp: ev)
  qed
  have d: "distinct events"
    using distinct_dump[OF c] by (simp add: ev)
  have "set (queryFilter env s False ?f) = {x \<in> stored s. keep s False ?f x}"
    using sub sup by (auto simp: q)
  moreover have "distinct (queryFilter env s False ?f)"
    using d by (simp add: q)
  ultimately show ?thesis
    by (auto simp: query_def k)
qed

theorem day_bucket_coverage_witness:
  "(case loadEvents sample_env [note0, note60, note_day1] clear of
      Inr s \<Rightarrow>
        set (query sample_env s [timeFilter 0 86460] False) = {note0, note60, note_day1} \<and>
        set (query sample_env s [timeFilter 1 86459] False) = {note60} \<and>
        set (query sample_env s [timeFilter (- 5) 0] False) = {note0}
    | Inl err \<Rightarrow> False)"
proof -
  obtain s where l: "loadEvents sample_env [note0, note60, note_day1] clear = Inr s"
    and r: "reachable sample_env s" and st: "stored s = {note0, note60, note_day1}"
    and nd: "\<not> isDeleted s note0" "\<not> isDeleted s note60" "\<not> isDeleted s note_day1"
    by (rule three_notes_state)
  have t: "created_at note0 = 0" "created_at note60 = 60" "created_at note_day1 = 86460"
    by (simp_all add: note0_def note60_def note_day1_def mk_event_def)
  have e: "EPOCH sample_env < DAY" "0 \<le> now sample_env"
    by (simp_all add: sample_env_def DAY_def)
  from day_bucket_coverage[OF r, of 0 86460] e st nd t
  have a: "set (query sample_env s [timeFilter 0 86460] False) = {note0, note60, note_day1}"
    by auto
  from day_bucket_coverage[OF r, of 1 86459] st nd t
  have b: "set (query sample_env s [timeFilter 1 86459] False) = {note60}"
    by auto
  from day_bucket_coverage[OF r, of "- 5" 0] e st nd t
  have c: "set (query sample_env s [timeFilter (- 5) 0] False) = {note0}"
    by auto
  from l a b c show ?thesis by simp
qed

text \<open>
  Without the condition on \<^verbatim>\<open>EPOCH\<close> the claim fails at \<open>T1 = 0\<close>. With \<^verbatim>\<open>EPOCH\<close> at
  1609459200 (day 18628) and a note created at 60 stored, the filter \<open>since = 0\<close>,
  \<open>until = 150\<close> takes the days from 18628 up to 0, which are none, and the query
  returns nothing, while the note is stored, not deleted, and lies between 0 and 150.
\<close>

theorem day_bucket_counterexample:
  "(case publish late_epoch_env clear note60 of
      Inr (b, s) \<Rightarrow>
        b \<and> query late_epoch_env s [timeFilter 0 150] False = [] \<and>
        map_of (eventsById s) ''x'' = Some note60 \<and>
        \<not> isDeleted s note60 \<and>
        0 \<le> created_at note60 \<and> created_at note60 \<le> 150
    | Inl err \<Rightarrow> False)"
  by (simp add: late_epoch_env_def run_simps note60_def timeFilter_def
      query_def queryFilter_def narrow_def truthy_def or_else_def range_ints_def inc_def
      sortBy_def)

section \<open>Dump and load\<close>

text \<open>
  C9. For a state reached by calls of \<open>publish\<close> on an empty repository, loading the
  dump of the state, in chunks of any positive size, returns and gives the state
  itself: the same \<open>eventsById\<close>, the same indexes and tombstones, and so the same result
  of every query.
\<close>

theorem dump_load_roundtrip:
  assumes "reachable env s" and "0 < chunkSize"
  shows "load env (dump s) chunkSize = Inr s"
  using reachable_replay[OF assms(1)] loadChunks_chunk[OF assms(2)]
  by (simp add: load_def)

theorem dump_load_roundtrip_witness:
  "(case publish sample_env clear article_a of
      Inr (b, s) \<Rightarrow> b \<and> load sample_env (dump s) 1000 = Inr s
    | Inl err \<Rightarrow> False)"
proof -
  obtain s where p: "publish sample_env clear article_a = Inr (True, s)"
    and r: "reachable sample_env s"
    by (rule sample_state)
  from dump_load_roundtrip[OF r, of 1000] p show ?thesis by simp
qed

section \<open>Limits\<close>

text \<open>
  C8. In a reachable state, for a filter with \<open>limit = N\<close>, \<open>N \<ge> 1\<close>, whose \<open>ids\<close> (when
  present) are pairwise distinct, the query, deleted events excluded, returns at most
  \<open>N\<close> events for the filter: the \<open>min N m\<close> most recent by \<open>created_at\<close> of the \<open>m\<close>
  stored, not deleted events that match the filter and, when the candidates come from the
  day buckets, lie in the scanned days. No event that matches and is left out is more
  recent than one that is returned.
\<close>

theorem limit_most_recent:
  assumes "reachable env s" and "limit f = Some N" and "1 \<le> N"
    and "\<forall>l. ids f = Some l \<longrightarrow> distinct l"
    and "distinct (map fst (tagFields f))"
  shows "query env s [f] False = queryFilter env s False f \<and>
         distinct (queryFilter env s False f) \<and>
         set (queryFilter env s False f) \<subseteq> matches env s f \<and>
         length (queryFilter env s False f) = min (nat N) (card (matches env s f)) \<and>
         (\<forall>x \<in> set (queryFilter env s False f).
            \<forall>y \<in> matches env s f - set (queryFilter env s False f).
              created_at y \<le> created_at x)"
proof -
  from assms(1) have c: "consistent s" by (rule reachable_consistent)
  obtain events f' where n: "narrow env s f = (events, f')" by (cases "narrow env s f")
  from assms(4) have di: "\<And>l. ids f = Some l \<Longrightarrow> distinct l" by blast
  note ns = narrow_sound[OF c di assms(5) n]
  let ?k = "\<lambda>e. - created_at e"
  let ?L = "filter (keep s False f') (sortBy ?k events)"
  let ?R = "queryFilter env s False f"
  from ns(2) assms(2) have l: "limit f' = Some N" by simp
  with assms(3) have nr: "\<not> limitReached f' []" by (simp add: limitReached_def)
  have R: "?R = take (nat N) ?L"
    unfolding queryFilter_def n using nr l assms(3) by (simp add: walk_eq)
  have setL: "set ?L = matches env s f"
    using ns(3) by (auto simp: keep_def matches_def)
  have dL: "distinct ?L" using ns(1) by simp
  have dR: "distinct ?R" unfolding R using dL by simp
  have sub: "set ?R \<subseteq> matches env s f"
    unfolding R using setL set_take_subset[of "nat N" ?L] by blast
  have "card (matches env s f) = length ?L"
    using distinct_card[OF dL] setL by simp
  then have len: "length ?R = min (nat N) (card (matches env s f))"
    unfolding R by simp
  have "sorted (map ?k ?L)"
    using sorted_sortBy[of ?k events] by (rule sorted_map_filter)
  then have "sorted (map ?k (take (nat N) ?L) @ map ?k (drop (nat N) ?L))"
    by (simp flip: map_append)
  then have ord: "\<forall>a \<in> set (take (nat N) ?L). \<forall>b \<in> set (drop (nat N) ?L). ?k a \<le> ?k b"
    by (auto simp: sorted_append)
  have rest: "y \<in> set (drop (nat N) ?L)" if "y \<in> matches env s f - set ?R" for y
  proof -
    have "set ?L = set (take (nat N) ?L) \<union> set (drop (nat N) ?L)"
      by (metis append_take_drop_id set_append)
    with that setL show ?thesis unfolding R by blast
  qed
  have top: "\<forall>x \<in> set ?R. \<forall>y \<in> matches env s f - set ?R. created_at y \<le> created_at x"
  proof (intro ballI)
    fix x y assume "x \<in> set ?R" "y \<in> matches env s f - set ?R"
    with rest[of y] ord show "created_at y \<le> created_at x" unfolding R by fastforce
  qed
  have q: "query env s [f] False = ?R"
    using dR by (simp add: query_def uniq_distinct)
  from q dR sub len top show ?thesis by blast
qed

theorem limit_most_recent_witness:
  "(case publish sample_env clear article_a of
      Inr (b, s) \<Rightarrow>
        b \<and> length (query sample_env s [sinceLimitFilter 50 1] False) =
              min 1 (card (matches sample_env s (sinceLimitFilter 50 1)))
    | Inl err \<Rightarrow> False)"
proof -
  obtain s where p: "publish sample_env clear article_a = Inr (True, s)"
    and r: "reachable sample_env s"
    by (rule sample_state)
  have "limit (sinceLimitFilter 50 1) = Some 1" "ids (sinceLimitFilter 50 1) = None"
    "tagFields (sinceLimitFilter 50 1) = []"
    by (simp_all add: sinceLimitFilter_def)
  with limit_most_recent[OF r, of "sinceLimitFilter 50 1" 1]
  have "length (query sample_env s [sinceLimitFilter 50 1] False) =
          min 1 (card (matches sample_env s (sinceLimitFilter 50 1)))"
    by simp
  with p show ?thesis by simp
qed

text \<open>
  The claim without the restriction to the scanned days fails. The clock of the sample
  environment reads 1700000000 (day 19675); a note created at 1700100000 (day 19677)
  is stored. The filter \<open>since = 1699950000, limit = 1\<close> has no \<open>until\<close>, the scan ends
  with the day of the clock, and the query returns the older note of day 19675 while
  the stored, not deleted, matching note of day 19677 is the most recent.
\<close>

theorem limit_counterexample:
  "(case loadEvents sample_env [note_recent, note_ahead] clear of
      Inr s \<Rightarrow>
        query sample_env s [sinceLimitFilter 1699950000 1] False = [note_recent] \<and>
        map_of (eventsById s) ''f'' = Some note_ahead \<and>
        \<not> isDeleted s note_ahead \<and>
        matchFilter (sinceLimitFilter 1699950000 1) note_ahead \<and>
        created_at note_recent < created_at note_ahead
    | Inl err \<Rightarrow> False)"
  by (simp add: run_simps note_recent_def note_ahead_def sinceLimitFilter_def
      query_def queryFilter_def narrow_def truthy_def or_else_def range_ints_def inc_def
      sortBy_def walk.simps limitReached_def matchFilter_def member_opt_def)

text \<open>
  Why the ids of the filter are taken to be distinct: alone among the narrowing
  branches, the one for \<open>ids\<close> does not remove duplicates from its candidates, and an
  id given twice is walked and counted twice. With both notes stored, the ids of the
  later note twice and of the older note once, and a limit of 2, the walk stops after
  the later note and its repetition; the older note matches and is not returned.
\<close>

lemma limit_with_repeated_ids:
  "(case loadEvents sample_env [note_recent, note_ahead] clear of
      Inr s \<Rightarrow> query sample_env s [idsLimitFilter [''f'', ''f'', ''r''] 2] False = [note_ahead]
    | Inl err \<Rightarrow> False)"
  by (simp add: run_simps note_recent_def note_ahead_def idsLimitFilter_def
      query_def queryFilter_def narrow_def map_filter_simps
      sortBy_def walk.simps limitReached_def matchFilter_def member_opt_def)

end
